theory Spec2Isabelle
  imports Complex_Main "HOL-Library.Word" "HOL-Library.Product_Lexorder" "HOL-Library.Multiset"
begin

section \<open>Shannon-Fano and Huffman compression (Shannon\_Huffman.py)\<close>

text \<open>
  The Python module works on three kinds of data.
  \<^item> Text: a \<open>str\<close>, here a list of symbols of any type \<open>'a\<close>.
  \<^item> Bit strings: Python \<open>str\<close> values, built by this module from the characters \<open>'0'\<close> and
    \<open>'1'\<close>, here \<open>string\<close>; the decoder goes left on \<open>'0'\<close> and right on anything else, as the
    source does.
  \<^item> Tree nodes: Python dicts with the keys \<open>'char'\<close>, \<open>'freq'\<close>, \<open>'left'\<close>, \<open>'right'\<close>.
    A key may be absent, so the three keys the code tests or reads conditionally are options.
  Exceptions are values of type \<open>error\<close>; a function that can raise returns \<open>error + 'a\<close>.
\<close>

datatype error = KeyError | TypeError | ValueError | RecursionError | OverflowError

datatype 'a tree =
  Node (char_of: "'a option") (freq_of: int) (left_of: "'a tree option") (right_of: "'a tree option")

type_synonym 'a code_table = "'a \<rightharpoonup> string"

subsection \<open>Shared utilities\<close>

text \<open>
  \<open>dict(Counter(text))\<close>: one entry per distinct symbol, in the order of first occurrence
  (dicts keep insertion order, and incrementing a count does not move its key).
\<close>

fun bump :: "'a \<Rightarrow> ('a \<times> int) list \<Rightarrow> ('a \<times> int) list" where
  "bump c [] = [(c, 1)]"
| "bump c ((k, v) # kvs) = (if k = c then (k, v + 1) # kvs else (k, v) # bump c kvs)"

definition analyze_frequencies :: "'a list \<Rightarrow> ('a \<times> int) list" where
  "analyze_frequencies text = foldl (\<lambda>counts c. bump c counts) [] text"

text \<open>\<open>''.join(code_table[char] for char in text)\<close>; a missing key raises \<open>KeyError\<close>.\<close>

fun join_codes :: "'a list \<Rightarrow> 'a code_table \<Rightarrow> error + string" where
  "join_codes [] code_table = Inr []"
| "join_codes (c # cs) code_table =
     (case code_table c of
        None \<Rightarrow> Inl KeyError
      | Some code \<Rightarrow>
          (case join_codes cs code_table of
             Inl e \<Rightarrow> Inl e
           | Inr bits \<Rightarrow> Inr (code @ bits)))"

definition bitstring :: "string \<Rightarrow> bool" where
  "bitstring s = list_all (\<lambda>c. c = CHR ''0'' \<or> c = CHR ''1'') s"

text \<open>
  \<open>int(byte, 2)\<close>. Python strips white space at both ends, then reads an optional sign, an
  optional prefix \<open>0b\<close> or \<open>0B\<close> (after which one underscore may follow), and binary digits
  in which single underscores may separate digits; anything else raises \<open>ValueError\<close>.
  The white space characters below 256 are tab, line feed, vertical tab, form feed,
  carriage return, space, next line and no-break space.
\<close>

definition is_space :: "char \<Rightarrow> bool" where
  "is_space c =
     (c \<in> set [CHR 0x09, CHR 0x0A, CHR 0x0B, CHR 0x0C, CHR 0x0D, CHR 0x20, CHR 0x85, CHR 0xA0])"

definition strip :: "string \<Rightarrow> string" where
  "strip s = rev (dropWhile is_space (rev (dropWhile is_space s)))"

definition bin_value :: "string \<Rightarrow> nat" where
  "bin_value s = foldl (\<lambda>n c. 2 * n + (if c = CHR ''1'' then 1 else 0)) 0 s"

definition binary_digits :: "string \<Rightarrow> nat option" where
  "binary_digits s =
     (if s = [] \<or> hd s = CHR ''_'' \<or> last s = CHR ''_''
         \<or> list_ex (\<lambda>(a, b). a = CHR ''_'' \<and> b = CHR ''_'') (zip s (tl s))
         \<or> \<not> list_all (\<lambda>c. c = CHR ''0'' \<or> c = CHR ''1'' \<or> c = CHR ''_'') s
      then None
      else Some (bin_value (filter (\<lambda>c. c \<noteq> CHR ''_'') s)))"

definition int2 :: "string \<Rightarrow> error + int" where
  "int2 s =
     (let s1 = strip s;
          negative = (s1 \<noteq> [] \<and> hd s1 = CHR ''-'');
          s2 = (if s1 \<noteq> [] \<and> (hd s1 = CHR ''-'' \<or> hd s1 = CHR ''+'') then tl s1 else s1);
          s3 = (case s2 of
                  a # b # cs \<Rightarrow>
                    if a = CHR ''0'' \<and> (b = CHR ''b'' \<or> b = CHR ''B'')
                    then (if cs \<noteq> [] \<and> hd cs = CHR ''_'' then tl cs else cs)
                    else s2
                | _ \<Rightarrow> s2)
      in case binary_digits s3 of
           None \<Rightarrow> Inl ValueError
         | Some v \<Rightarrow> Inr (if negative then - int v else int v))"

text \<open>
  The loop \<open>for i in range(0, len(bits), 8): byte_array.append(int(bits[i:i+8], 2))\<close>.
  \<open>bytearray.append\<close> raises \<open>ValueError\<close> outside \<open>range(256)\<close>.
\<close>

function to_bytes :: "string \<Rightarrow> error + 8 word list" where
  "to_bytes bits =
     (if bits = [] then Inr []
      else
        (case int2 (take 8 bits) of
           Inl e \<Rightarrow> Inl e
         | Inr v \<Rightarrow>
             if 0 \<le> v \<and> v < 256
             then (case to_bytes (drop 8 bits) of
                     Inl e \<Rightarrow> Inl e
                   | Inr byte_array \<Rightarrow> Inr (word_of_int v # byte_array))
             else Inl ValueError))"
  by pat_completeness auto
termination
  by (relation "measure length") auto

declare to_bytes.simps [simp del]

definition encode_text :: "'a list \<Rightarrow> 'a code_table \<Rightarrow> error + (8 word list \<times> int)" where
  "encode_text text code_table =
     (case join_codes text code_table of
        Inl e \<Rightarrow> Inl e
      | Inr bits \<Rightarrow>
          (let padding = (8 - int (length bits) mod 8) mod 8;
               bits' = bits @ replicate (nat padding) CHR ''0''
           in case to_bytes bits' of
                Inl e \<Rightarrow> Inl e
              | Inr byte_array \<Rightarrow> Inr (byte_array, padding)))"

text \<open>\<open>format(byte, '08b')\<close>: the eight binary digits of a byte, most significant first.\<close>

fun digits :: "nat \<Rightarrow> nat \<Rightarrow> string" where
  "digits 0 n = []"
| "digits (Suc k) n = digits k (n div 2) @ [if odd n then CHR ''1'' else CHR ''0'']"

definition format_08b :: "8 word \<Rightarrow> string" where
  "format_08b byte = digits 8 (unat byte)"

definition bytes_to_bits :: "8 word list \<Rightarrow> string" where
  "bytes_to_bits data = concat (map format_08b data)"

text \<open>
  The loop of \<open>decode_bits\<close>: \<open>node['left']\<close> and \<open>node['right']\<close> raise \<open>KeyError\<close> when
  the key is absent, \<open>'char' in node\<close> tests for a leaf, and a leaf resets \<open>node\<close> to the root.
\<close>

fun decode_loop :: "'a tree \<Rightarrow> 'a tree \<Rightarrow> string \<Rightarrow> 'a list \<Rightarrow> error + 'a list" where
  "decode_loop tree node [] result = Inr result"
| "decode_loop tree node (b # bits) result =
     (case (if b = CHR ''0'' then left_of node else right_of node) of
        None \<Rightarrow> Inl KeyError
      | Some node' \<Rightarrow>
          (case char_of node' of
             Some c \<Rightarrow> decode_loop tree tree bits (result @ [c])
           | None \<Rightarrow> decode_loop tree node' bits result))"

text \<open>
  \<open>decode_bits(bits, tree, padding)\<close>. The slice \<open>bits[:-padding]\<close> keeps the first
  \<open>len(bits) - padding\<close> characters, none when \<open>padding\<close> exceeds the length. The tree is
  \<open>None\<close> when Huffman construction got an empty table; subscripting \<open>None\<close> raises
  \<open>TypeError\<close> at the first bit.
\<close>

definition decode_bits :: "string \<Rightarrow> 'a tree option \<Rightarrow> int \<Rightarrow> error + 'a list" where
  "decode_bits bits tree padding =
     (let bits' = (if padding > 0 then take (length bits - nat padding) bits else bits)
      in case tree of
           None \<Rightarrow> (if bits' = [] then Inr [] else Inl TypeError)
         | Some t \<Rightarrow> decode_loop t t bits' [])"

subsection \<open>Shannon-Fano\<close>

text \<open>
  Python floats are IEEE 754 doubles: 53 significant bits, round to nearest, ties to even.
  \<open>round53 n\<close> is the integer nearest to \<open>n\<close> with at most 53 significant bits; it is the value
  of the double that the conversion of the integer \<open>n\<close> yields, when that is finite.
\<close>

function bit_length :: "int \<Rightarrow> nat" where
  "bit_length n = (if n \<le> 0 then 0 else Suc (bit_length (n div 2)))"
  by pat_completeness auto
termination
  by (relation "measure nat") auto

declare bit_length.simps [simp del]

definition round53 :: "int \<Rightarrow> int" where
  "round53 n =
     (let a = \<bar>n\<bar>; k = bit_length a
      in if k \<le> 53 then n
         else
           (let q = k - 53; m = a div 2 ^ q; r = a mod 2 ^ q;
                m' = (if 2 ^ q < 2 * r \<or> (2 * r = 2 ^ q \<and> odd m) then m + 1 else m)
            in sgn n * (m' * 2 ^ q)))"

text \<open>
  A float is modelled by its exact value, a real. Converting an integer to a float (as
  \<open>total / 2.0\<close> and \<open>cumulative - half\<close> do with their integer operand) raises \<open>OverflowError\<close>
  when the rounded value is beyond the largest double.
\<close>

definition float_of_int :: "int \<Rightarrow> error + real" where
  "float_of_int n =
     (let r = round53 n
      in if 2 ^ 1024 \<le> \<bar>r\<bar> then Inl OverflowError else Inr (real_of_int r))"

text \<open>
  The double nearest to a real \<open>x\<close> that is a multiple of one half, as every difference
  \<open>cumulative - half\<close> is: twice \<open>x\<close> is an integer and is rounded to 53 bits. Beyond the largest
  double the result of a float operation is \<open>inf\<close>, here \<open>None\<close>, and nothing is raised.
\<close>

definition round_double :: "real \<Rightarrow> real option" where
  "round_double x =
     (let r = round53 \<lfloor>2 * x\<rfloor>
      in if 2 ^ 1025 \<le> \<bar>r\<bar> then None else Some (real_of_int r / 2))"

text \<open>\<open>diff < min_diff\<close> on floats that may be \<open>inf\<close>; \<open>min_diff\<close> starts as \<open>float('inf')\<close>.\<close>

fun less_min :: "real option \<Rightarrow> real option \<Rightarrow> bool" where
  "less_min None min_diff = False"
| "less_min (Some diff) None = True"
| "less_min (Some diff) (Some min_diff) = (diff < min_diff)"

text \<open>
  The \<open>for i in range(len(items))\<close> loop of \<open>shannon_fano_split\<close>; the first argument is
  \<open>items[i:]\<close>. \<open>cumulative\<close> is an integer and \<open>half\<close> a float, so \<open>cumulative - half\<close> converts
  \<open>cumulative\<close> to a float and subtracts with rounding; \<open>abs\<close> is exact.
\<close>

fun split_loop ::
  "('a \<times> int) list \<Rightarrow> real \<Rightarrow> nat \<Rightarrow> int \<Rightarrow> int \<Rightarrow> real option \<Rightarrow> error + int" where
  "split_loop [] half i cumulative best_split min_diff = Inr best_split"
| "split_loop (item # rest) half i cumulative best_split min_diff =
     (let cumulative' = cumulative + snd item
      in case float_of_int cumulative' of
           Inl e \<Rightarrow> Inl e
         | Inr c \<Rightarrow>
             (let diff = map_option abs (round_double (c - half))
              in if less_min diff min_diff
                 then split_loop rest half (i + 1) cumulative' (int i + 1) diff
                 else split_loop rest half (i + 1) cumulative' best_split min_diff))"

text \<open>
  \<open>shannon_fano_split\<close>: \<open>total\<close> is an exact integer sum, \<open>half = total / 2.0\<close> converts it to a
  float and halves it, which is exact.
\<close>

definition shannon_fano_split :: "('a \<times> int) list \<Rightarrow> error + int" where
  "shannon_fano_split items =
     (let total = sum_list (map snd items)
      in case float_of_int total of
           Inl e \<Rightarrow> Inl e
         | Inr t \<Rightarrow>
             (let half = t / 2
              in case split_loop items half 0 0 1 None of
                   Inl e \<Rightarrow> Inl e
                 | Inr best_split \<Rightarrow> Inr (max 1 (min best_split (int (length items) - 1)))))"

text \<open>
  \<open>build_shannon_tree\<close> recurses on both slices. Python bounds the depth of recursion and
  raises \<open>RecursionError\<close> beyond it; the first argument is the number of frames still
  available. The slices \<open>items[:split]\<close> and \<open>items[split:]\<close> are taken with \<open>split \<ge> 1\<close>.
\<close>

fun build_shannon_tree :: "nat \<Rightarrow> ('a \<times> int) list \<Rightarrow> error + 'a tree" where
  "build_shannon_tree 0 items = Inl RecursionError"
| "build_shannon_tree (Suc limit) items =
     (if length items = 1
      then Inr (Node (Some (fst (hd items))) (snd (hd items)) None None)
      else
        (case shannon_fano_split items of
           Inl e \<Rightarrow> Inl e
         | Inr split \<Rightarrow>
             (let left_items = take (nat split) items;
                  right_items = drop (nat split) items;
                  total_freq = sum_list (map snd items)
              in case build_shannon_tree limit left_items of
                   Inl e \<Rightarrow> Inl e
                 | Inr l \<Rightarrow>
                     (case build_shannon_tree limit right_items of
                        Inl e \<Rightarrow> Inl e
                      | Inr r \<Rightarrow> Inr (Node None total_freq (Some l) (Some r))))))"

text \<open>
  \<open>generate_codes(tree, prefix)\<close>: \<open>codes.update\<close> of the left codes, then of the right ones,
  so a symbol found on both sides keeps its right code. The recursion follows the tree, whose
  depth is below the number of symbols; the recursion limit is not modelled here.
\<close>

fun generate_codes :: "'a tree \<Rightarrow> string \<Rightarrow> 'a code_table" where
  "generate_codes (Node ch f l r) prefix =
     (case ch of
        Some c \<Rightarrow> [c \<mapsto> (if prefix \<noteq> [] then prefix else ''0'')]
      | None \<Rightarrow>
          (case l of None \<Rightarrow> Map.empty | Some lt \<Rightarrow> generate_codes lt (prefix @ ''0''))
          ++ (case r of None \<Rightarrow> Map.empty | Some rt \<Rightarrow> generate_codes rt (prefix @ ''1'')))"

text \<open>
  \<open>sorted(frequencies.items(), key=lambda x: x[1], reverse=True)\<close>: Python's sort is stable,
  also with \<open>reverse=True\<close>, so items of equal frequency keep the order of the table.
\<close>

definition sorted_items :: "('a \<times> int) list \<Rightarrow> ('a \<times> int) list" where
  "sorted_items frequencies = sort_key (\<lambda>x. - snd x) frequencies"

definition shannon_fano_compress ::
  "nat \<Rightarrow> 'a list \<Rightarrow> error + (8 word list \<times> 'a tree option \<times> int \<times> 'a code_table)" where
  "shannon_fano_compress limit text =
     (let frequencies = analyze_frequencies text;
          items = sorted_items frequencies
      in case build_shannon_tree limit items of
           Inl e \<Rightarrow> Inl e
         | Inr tree \<Rightarrow>
             (let code_table = generate_codes tree []
              in case encode_text text code_table of
                   Inl e \<Rightarrow> Inl e
                 | Inr (compressed_data, padding) \<Rightarrow>
                     Inr (compressed_data, Some tree, padding, code_table)))"

definition shannon_fano_decompress :: "8 word list \<Rightarrow> 'a tree option \<Rightarrow> int \<Rightarrow> error + 'a list" where
  "shannon_fano_decompress compressed_data tree padding =
     decode_bits (bytes_to_bits compressed_data) tree padding"

subsection \<open>Huffman\<close>

text \<open>
  Heap items are tuples \<open>(freq, id(x), node)\<close>, compared as Python tuples: by weight, then by
  the identity \<open>id(x)\<close> of the object \<open>x\<close>, which is the symbol for a leaf and the new dict for a
  merged node. Object identities are given by the run, not by the program, so they are a
  parameter \<open>ident\<close>; \<open>Merged n\<close> is the dict made by the \<open>n\<close>-th merge. Objects alive together
  have distinct identities, hence no two items of a heap agree on weight and identity and
  the node dicts themselves are never compared.

  \<open>heapq\<close> is modelled by its contract: the heap is the list of its items in increasing
  order, \<open>heappush\<close> inserts and \<open>heappop\<close> removes the head, the smallest item.
\<close>

datatype 'a obj = Char 'a | Merged nat

type_synonym 'a item = "int \<times> nat \<times> 'a tree"

definition item_key :: "'a item \<Rightarrow> int \<times> nat" where
  "item_key item = (fst item, fst (snd item))"

definition heappush :: "'a item list \<Rightarrow> 'a item \<Rightarrow> 'a item list" where
  "heappush heap item = insort_key item_key item heap"

text \<open>
  The loop \<open>while len(heap) > 1\<close>: two \<open>heappop\<close>s, one \<open>heappush\<close> of the merged node.
  The second argument counts the merges done so far.
\<close>

function huffman_loop :: "('a obj \<Rightarrow> nat) \<Rightarrow> nat \<Rightarrow> 'a item list \<Rightarrow> 'a item list" where
  "huffman_loop ident n heap =
     (case heap of
        (freq1, _, left) # (freq2, _, right) # heap' \<Rightarrow>
          (let merged = Node None (freq1 + freq2) (Some left) (Some right)
           in huffman_loop ident (Suc n) (heappush heap' (freq1 + freq2, ident (Merged n), merged)))
      | _ \<Rightarrow> heap)"
  by pat_completeness auto
termination
  by (relation "measure (\<lambda>(ident, n, heap). length heap)") (auto simp: heappush_def)

declare huffman_loop.simps [simp del]

definition leaf_heap :: "('a obj \<Rightarrow> nat) \<Rightarrow> ('a \<times> int) list \<Rightarrow> 'a item list" where
  "leaf_heap ident frequencies =
     foldl (\<lambda>heap (c, freq). heappush heap (freq, ident (Char c), Node (Some c) freq None None))
       [] frequencies"

definition build_huffman_tree :: "('a obj \<Rightarrow> nat) \<Rightarrow> ('a \<times> int) list \<Rightarrow> 'a tree option" where
  "build_huffman_tree ident frequencies =
     (case huffman_loop ident 0 (leaf_heap ident frequencies) of
        [] \<Rightarrow> None
      | item # _ \<Rightarrow> Some (snd (snd item)))"

text \<open>\<open>generate_codes(None)\<close> raises \<open>TypeError\<close> at \<open>'char' in tree\<close>.\<close>

definition huffman_compress ::
  "('a obj \<Rightarrow> nat) \<Rightarrow> 'a list \<Rightarrow> error + (8 word list \<times> 'a tree option \<times> int \<times> 'a code_table)" where
  "huffman_compress ident text =
     (let frequencies = analyze_frequencies text
      in case build_huffman_tree ident frequencies of
           None \<Rightarrow> Inl TypeError
         | Some tree \<Rightarrow>
             (let code_table = generate_codes tree []
              in case encode_text text code_table of
                   Inl e \<Rightarrow> Inl e
                 | Inr (compressed_data, padding) \<Rightarrow>
                     Inr (compressed_data, Some tree, padding, code_table)))"

definition huffman_decompress :: "8 word list \<Rightarrow> 'a tree option \<Rightarrow> int \<Rightarrow> error + 'a list" where
  "huffman_decompress compressed_data tree padding =
     decode_bits (bytes_to_bits compressed_data) tree padding"

subsection \<open>The "arithmetic coding" path\<close>



subsection \<open>Quantities named by the specification\<close>

text \<open>The length of the concatenation of the symbols' codes.\<close>

definition total_bit_length :: "'a list \<Rightarrow> 'a code_table \<Rightarrow> nat" where
  "total_bit_length text code_table =
     length (concat (map (\<lambda>c. case code_table c of None \<Rightarrow> [] | Some code \<Rightarrow> code) text))"

text \<open>
  The full-tree invariant of the data model: a node with a \<open>'char'\<close> is a leaf and has no
  children; a node without one is internal and has both children, each full in turn.
\<close>

fun full :: "'a tree \<Rightarrow> bool" where
  "full (Node ch f l r) =
     (case ch of
        Some c \<Rightarrow> l = None \<and> r = None
      | None \<Rightarrow> (case l of None \<Rightarrow> False | Some lt \<Rightarrow> (case r of None \<Rightarrow> False | Some rt \<Rightarrow> full lt \<and> full rt)))"

text \<open>
  The node reached from \<open>node\<close> along a path of bits, going down from internal nodes only
  (\<open>'0'\<close> left, anything else right); \<open>None\<close> when the path leaves the tree.
\<close>

fun descend :: "'a tree \<Rightarrow> string \<Rightarrow> 'a tree option" where
  "descend node [] = Some node"
| "descend node (b # bits) =
     (case char_of node of
        Some c \<Rightarrow> None
      | None \<Rightarrow>
          (case (if b = CHR ''0'' then left_of node else right_of node) of
             None \<Rightarrow> None
           | Some node' \<Rightarrow> descend node' bits))"

text \<open>\<open>x\<close> is a prefix of \<open>y\<close>; then no code of a table is a prefix of another symbol's code.\<close>

definition is_prefix :: "string \<Rightarrow> string \<Rightarrow> bool" where
  "is_prefix x y = (take (length x) y = x)"

definition prefix_free :: "'a code_table \<Rightarrow> bool" where
  "prefix_free code_table =
     (\<forall>a b x y. a \<noteq> b \<and> code_table a = Some x \<and> code_table b = Some y \<longrightarrow> \<not> is_prefix x y)"

text \<open>\<open>decompress(compress(S))\<close> for each algorithm; an exception in either step propagates.\<close>

definition shannon_fano_roundtrip :: "nat \<Rightarrow> 'a list \<Rightarrow> error + 'a list" where
  "shannon_fano_roundtrip limit text =
     (case shannon_fano_compress limit text of
        Inl e \<Rightarrow> Inl e
      | Inr (compressed_data, tree, padding, code_table) \<Rightarrow>
          shannon_fano_decompress compressed_data tree padding)"

definition huffman_roundtrip :: "('a obj \<Rightarrow> nat) \<Rightarrow> 'a list \<Rightarrow> error + 'a list" where
  "huffman_roundtrip ident text =
     (case huffman_compress ident text of
        Inl e \<Rightarrow> Inl e
      | Inr (compressed_data, tree, padding, code_table) \<Rightarrow>
          huffman_decompress compressed_data tree padding)"

text \<open>The symbols at the leaves of a tree.\<close>

fun symbols :: "'a tree \<Rightarrow> 'a set" where
  "symbols (Node ch f l r) =
     (case ch of
        Some c \<Rightarrow> {c}
      | None \<Rightarrow>
          (case l of None \<Rightarrow> {} | Some lt \<Rightarrow> symbols lt)
          \<union> (case r of None \<Rightarrow> {} | Some rt \<Rightarrow> symbols rt))"

text \<open>
  Two identity assignments for examples, both injective on the symbols and merges of a run. Under \<open>ident_up\<close> the symbols'
  identities increase with the character code, under \<open>ident_down\<close> they decrease.
\<close>

definition ident_up :: "char obj \<Rightarrow> nat" where
  "ident_up x = (case x of Char c \<Rightarrow> 2 * of_char c | Merged n \<Rightarrow> 2 * n + 1)"

definition ident_down :: "char obj \<Rightarrow> nat" where
  "ident_down x = (case x of Char c \<Rightarrow> 2 * (255 - of_char c) | Merged n \<Rightarrow> 2 * n + 1)"


text \<open>
  The absolute difference between the weight of the first \<open>k\<close> items and half the total
  weight, and the first index among \<open>1, \<dots>, m\<close> that minimises it.
\<close>

definition left_diff :: "('a \<times> int) list \<Rightarrow> nat \<Rightarrow> real" where
  "left_diff items k =
     \<bar>real_of_int (sum_list (map snd (take k items))) - real_of_int (sum_list (map snd items)) / 2\<bar>"

definition first_minimum :: "('a \<times> int) list \<Rightarrow> nat \<Rightarrow> nat \<Rightarrow> bool" where
  "first_minimum items m b =
     (1 \<le> b \<and> b \<le> m
      \<and> (\<forall>k\<in>{1..m}. left_diff items b \<le> left_diff items k)
      \<and> (\<forall>k\<in>{1..<b}. left_diff items b < left_diff items k))"

text \<open>
  \<open>p\<close> is a code of the symbol \<open>c\<close> in the tree \<open>t\<close>: a non-empty path from the root to a leaf
  that holds \<open>c\<close>.
\<close>

definition is_code :: "'a tree \<Rightarrow> 'a \<Rightarrow> string \<Rightarrow> bool" where
  "is_code t c p =
     (p \<noteq> [] \<and> (case descend t p of None \<Rightarrow> False | Some leaf \<Rightarrow> char_of leaf = Some c))"

text \<open>
  Two heap items of two runs that differ in their object identities only: the same weight and
  the same node, and the identities of one and the same object.
\<close>

definition same_item :: "('a obj \<Rightarrow> nat) \<Rightarrow> ('a obj \<Rightarrow> nat) \<Rightarrow> 'a item \<Rightarrow> 'a item \<Rightarrow> bool" where
  "same_item ident1 ident2 item1 item2 =
     (fst item1 = fst item2 \<and> snd (snd item1) = snd (snd item2)
      \<and> (\<exists>x. fst (snd item1) = ident1 x \<and> fst (snd item2) = ident2 x))"

section \<open>Properties\<close>

subsection \<open>Bit strings and bytes\<close>

lemma bitstring_simps [simp]:
  "bitstring []"
  "bitstring (c # s) = ((c = CHR ''0'' \<or> c = CHR ''1'') \<and> bitstring s)"
  "bitstring (a @ b) = (bitstring a \<and> bitstring b)"
  "bitstring (replicate n CHR ''0'')"
  by (auto simp: bitstring_def list_all_iff)

lemma bitstring_take_drop: "bitstring s \<Longrightarrow> bitstring (take n s) \<and> bitstring (drop n s)"
  by (auto simp: bitstring_def list_all_iff dest: in_set_takeD in_set_dropD)

lemma bin_value_snoc: "bin_value (s @ [c]) = 2 * bin_value s + (if c = CHR ''1'' then 1 else 0)"
  by (simp add: bin_value_def)

lemma bin_value_bound: "bin_value s < 2 ^ length s"
proof (induction s rule: rev_induct)
  case Nil
  then show ?case by (simp add: bin_value_def)
next
  case (snoc c s)
  then show ?case by (simp add: bin_value_snoc)
qed

lemma digits_bin_value: "bitstring s \<Longrightarrow> digits (length s) (bin_value s) = s"
proof (induction s rule: rev_induct)
  case Nil
  then show ?case by simp
next
  case (snoc c s)
  then show ?case by (auto simp add: bin_value_snoc)
qed

lemma dropWhile_id: "xs \<noteq> [] \<Longrightarrow> \<not> P (hd xs) \<Longrightarrow> dropWhile P xs = xs"
  by (cases xs) simp_all

lemma bitstring_chars: "bitstring s \<Longrightarrow> c \<in> set s \<Longrightarrow> c = CHR ''0'' \<or> c = CHR ''1''"
  by (simp add: bitstring_def list_all_iff)

lemma bit_not_space: "c = CHR ''0'' \<or> c = CHR ''1'' \<Longrightarrow> \<not> is_space c"
  by (erule disjE) (simp_all add: is_space_def)

lemma strip_bitstring:
  assumes "s \<noteq> []" "bitstring s"
  shows "strip s = s"
proof -
  have "hd s \<in> set s" "last s \<in> set s" using assms(1) by simp_all
  then have h: "\<not> is_space (hd s)" and l: "\<not> is_space (last s)"
    using bitstring_chars [OF assms(2)] bit_not_space by blast+
  have 1: "dropWhile is_space s = s" using assms(1) h by (rule dropWhile_id)
  have "rev s \<noteq> []" using assms(1) by simp
  moreover have "\<not> is_space (hd (rev s))" using l assms(1) by (simp add: hd_rev)
  ultimately have 2: "dropWhile is_space (rev s) = rev s" by (rule dropWhile_id)
  show ?thesis by (simp only: strip_def 1 2 rev_rev_ident)
qed

lemma binary_digits_bitstring:
  assumes "s \<noteq> []" "bitstring s"
  shows "binary_digits s = Some (bin_value s)"
proof -
  have nu: "\<And>c. c \<in> set s \<Longrightarrow> c \<noteq> CHR ''_''"
    using bitstring_chars [OF assms(2)] by fastforce
  have "hd s \<in> set s" "last s \<in> set s" using assms(1) by simp_all
  then have 1: "hd s \<noteq> CHR ''_''" "last s \<noteq> CHR ''_''" using nu by blast+
  have 2: "\<not> list_ex (\<lambda>(a, b). a = CHR ''_'' \<and> b = CHR ''_'') (zip s (tl s))"
  proof
    assume "list_ex (\<lambda>(a, b). a = CHR ''_'' \<and> b = CHR ''_'') (zip s (tl s))"
    then obtain a b where "(a, b) \<in> set (zip s (tl s))" "a = CHR ''_''"
      by (auto simp: list_ex_iff)
    then have "CHR ''_'' \<in> set s" by (auto dest: set_zip_leftD)
    with nu show False by blast
  qed
  have 3: "list_all (\<lambda>c. c = CHR ''0'' \<or> c = CHR ''1'' \<or> c = CHR ''_'') s"
    unfolding list_all_iff using bitstring_chars [OF assms(2)] by blast
  have 4: "filter (\<lambda>c. c \<noteq> CHR ''_'') s = s"
    unfolding filter_id_conv using nu by blast
  show ?thesis unfolding binary_digits_def 4 using assms(1) 1 2 3 by simp
qed

lemma int2_bitstring:
  assumes "s \<noteq> []" "bitstring s"
  shows "int2 s = Inr (int (bin_value s))"
proof -
  have "hd s \<in> set s" using assms(1) by simp
  then have h: "hd s = CHR ''0'' \<or> hd s = CHR ''1''" by (rule bitstring_chars [OF assms(2)])
  have s3: "(case s of
               a # b # cs \<Rightarrow>
                 if a = CHR ''0'' \<and> (b = CHR ''b'' \<or> b = CHR ''B'')
                 then (if cs \<noteq> [] \<and> hd cs = CHR ''_'' then tl cs else cs)
                 else s
             | _ \<Rightarrow> s) = s"
  proof (cases s)
    case Nil
    then show ?thesis by simp
  next
    case (Cons a t)
    show ?thesis
    proof (cases t)
      case Nil
      with Cons show ?thesis by simp
    next
      case (Cons b cs)
      with \<open>s = a # t\<close> have "b \<in> set s" by simp
      then have "b = CHR ''0'' \<or> b = CHR ''1''" by (rule bitstring_chars [OF assms(2)])
      then have "\<not> (b = CHR ''b'' \<or> b = CHR ''B'')" by (elim disjE) simp_all
      with Cons \<open>s = a # t\<close> show ?thesis by simp
    qed
  qed
  have ns: "\<not> (hd s = CHR ''-'' \<or> hd s = CHR ''+'')" using h by (elim disjE) simp_all
  have m: "\<not> (s \<noteq> [] \<and> hd s = CHR ''-'')" using ns by blast
  show ?thesis
    unfolding int2_def Let_def strip_bitstring [OF assms]
    using ns m by (simp only: s3 binary_digits_bitstring [OF assms] if_False option.case
        simp_thms)
qed

lemma format_08b_byte:
  assumes "bitstring s" "length s = 8"
  shows "format_08b (word_of_nat (bin_value s)) = s"
proof -
  have "bin_value s < 256" using bin_value_bound [of s] assms by simp
  then have "unat (word_of_nat (bin_value s) :: 8 word) = bin_value s"
    by (simp add: unat_of_nat)
  then show ?thesis using digits_bin_value [OF assms(1)] assms(2) by (simp add: format_08b_def)
qed

lemma to_bytes_ok:
  "bitstring bits \<Longrightarrow> 8 dvd length bits \<Longrightarrow>
   \<exists>data. to_bytes bits = Inr data \<and> length data = length bits div 8 \<and> bytes_to_bits data = bits"
proof (induction bits rule: to_bytes.induct)
  case (1 bits)
  show ?case
  proof (cases "bits = []")
    case True
    then show ?thesis by (simp add: to_bytes.simps bytes_to_bits_def)
  next
    case False
    from "1.prems"(2) obtain k where k: "length bits = 8 * k" by (auto elim!: dvdE)
    with False have "k \<noteq> 0" by (cases k) auto
    with k have len: "8 \<le> length bits" by simp
    let ?byte = "take 8 bits"
    have bs: "bitstring ?byte" "bitstring (drop 8 bits)"
      using "1.prems"(1) bitstring_take_drop by blast+
    have l8: "length ?byte = 8" using len by simp
    have v: "int2 ?byte = Inr (int (bin_value ?byte))" using bs l8 by (intro int2_bitstring) auto
    have lt: "0 \<le> int (bin_value ?byte) \<and> int (bin_value ?byte) < 256"
      using bin_value_bound [of ?byte] l8 by simp
    have wd: "(word_of_int (int (bin_value ?byte)) :: 8 word) = word_of_nat (bin_value ?byte)"
      by simp
    have dv: "8 dvd length (drop 8 bits)" using "1.prems"(2) len by (simp add: dvd_diff_nat)
    from "1.IH" [OF False v lt bs(2) dv] obtain data where
      d: "to_bytes (drop 8 bits) = Inr data" "length data = length (drop 8 bits) div 8"
         "bytes_to_bits data = drop 8 bits" by blast
    have "to_bytes bits = Inr (word_of_nat (bin_value ?byte) # data)"
      using False v lt d(1) wd by (subst to_bytes.simps) simp
    moreover have "length (word_of_nat (bin_value ?byte) # data) = length bits div 8"
      using d(2) len "1.prems"(2) by (auto elim!: dvdE)
    moreover have "bytes_to_bits (word_of_nat (bin_value ?byte) # data) = bits"
      using d(3) format_08b_byte [OF bs(1) l8] by (simp add: bytes_to_bits_def)
    ultimately show ?thesis by blast
  qed
qed

lemma join_codes_ok:
  "\<forall>c\<in>set text. \<exists>code. code_table c = Some code \<and> bitstring code \<Longrightarrow>
   \<exists>bits. join_codes text code_table = Inr bits \<and> bitstring bits
     \<and> length bits = total_bit_length text code_table"
  by (induction "text") (auto simp: total_bit_length_def)

subsection \<open>Padding arithmetic\<close>

lemma padding_cases:
  "(8 - int n mod 8) mod 8 = (if int n mod 8 = 0 then 0 else 8 - int n mod 8)"
proof -
  have r: "0 \<le> int n mod 8" "int n mod 8 < 8" by simp_all
  show ?thesis
  proof (cases "int n mod 8 = 0")
    case True
    then show ?thesis by simp
  next
    case False
    with r have "0 \<le> 8 - int n mod 8" "8 - int n mod 8 < 8" by linarith+
    then have "(8 - int n mod 8) mod 8 = 8 - int n mod 8" by (rule mod_pos_pos_trivial)
    with False show ?thesis by simp
  qed
qed

lemma padding_range: "0 \<le> (8 - int n mod 8) mod 8 \<and> (8 - int n mod 8) mod 8 \<le> 7"
proof -
  have "0 \<le> (8 - int n mod 8) mod 8" "(8 - int n mod 8) mod 8 < 8" by simp_all
  then show ?thesis by linarith
qed

lemma padded_int:
  "int (n + nat ((8 - int n mod 8) mod 8)) = 8 * (if int n mod 8 = 0 then int n div 8 else int n div 8 + 1)"
proof -
  define q r where "q = int n div 8" and "r = int n mod 8"
  have d: "int n = 8 * q + r" by (simp add: q_def r_def)
  have p: "0 \<le> (8 - int n mod 8) mod 8" by simp
  have "int (n + nat ((8 - int n mod 8) mod 8)) = int n + (8 - int n mod 8) mod 8"
    using p by simp
  also have "\<dots> = int n + (if r = 0 then 0 else 8 - r)"
    by (simp only: padding_cases r_def)
  also have "\<dots> = 8 * (if r = 0 then q else q + 1)"
    using d by (cases "r = 0") simp_all
  finally show ?thesis by (simp only: q_def r_def)
qed

lemma padded_dvd: "8 dvd n + nat ((8 - int n mod 8) mod 8)"
proof -
  have "(8::int) dvd int (n + nat ((8 - int n mod 8) mod 8))"
    by (simp only: padded_int dvd_triv_left)
  then have "int 8 dvd int (n + nat ((8 - int n mod 8) mod 8))" by simp
  then show ?thesis by (simp only: int_dvd_int_iff)
qed

lemma ceiling_eighth:
  "\<lceil>real n / 8\<rceil> = (if int n mod 8 = 0 then int n div 8 else int n div 8 + 1)"
proof -
  define q r where "q = int n div 8" and "r = int n mod 8"
  have d: "int n = 8 * q + r" by (simp add: q_def r_def)
  have r: "0 \<le> r" "r < 8" by (simp_all add: r_def)
  have rn: "real n = 8 * real_of_int q + real_of_int r"
    using d by (metis of_int_add of_int_mult of_int_numeral of_int_of_nat_eq)
  have "\<lceil>real n / 8\<rceil> = (if r = 0 then q else q + 1)"
  proof (cases "r = 0")
    case True
    then have "real n / 8 = real_of_int q" using rn by simp
    then show ?thesis using True by simp
  next
    case False
    with r have r1: "1 \<le> r" by linarith
    have "real_of_int q < real n / 8" using rn r1 by simp
    moreover have "real n / 8 \<le> real_of_int (q + 1)" using rn r by simp
    ultimately have "\<lceil>real n / 8\<rceil> = q + 1" by (intro ceiling_unique) simp_all
    then show ?thesis using False by simp
  qed
  then show ?thesis by (simp only: q_def r_def)
qed

lemma padded_div: "int ((n + nat ((8 - int n mod 8) mod 8)) div 8) = \<lceil>real n / 8\<rceil>"
proof -
  have "int ((n + nat ((8 - int n mod 8) mod 8)) div 8)
        = int (n + nat ((8 - int n mod 8) mod 8)) div 8"
    by (simp only: zdiv_int of_nat_numeral)
  also have "\<dots> = (if int n mod 8 = 0 then int n div 8 else int n div 8 + 1)"
    by (simp only: padded_int)
  finally show ?thesis by (simp only: ceiling_eighth)
qed

subsection \<open>Rounding to doubles\<close>

lemma bit_length_le: "a < 2 ^ j \<Longrightarrow> bit_length a \<le> j"
proof (induction j arbitrary: a)
  case 0
  then have "a \<le> 0" by simp
  then show ?case by (simp add: bit_length.simps)
next
  case (Suc j)
  show ?case
  proof (cases "a \<le> 0")
    case True
    then show ?thesis by (simp add: bit_length.simps)
  next
    case False
    from Suc.prems have "a div 2 < 2 ^ j" by simp
    from Suc.IH [OF this] False show ?thesis by (subst bit_length.simps) simp
  qed
qed

lemma bit_length_less: "0 \<le> a \<Longrightarrow> a < 2 ^ bit_length a"
proof (induction a rule: bit_length.induct)
  case (1 n)
  show ?case
  proof (cases "n \<le> 0")
    case True
    with "1.prems" have "n = 0" by simp
    then show ?thesis by simp
  next
    case False
    then have "0 \<le> n div 2" by simp
    from "1.IH" [OF False this] have "n div 2 < 2 ^ bit_length (n div 2)" .
    then have "n < 2 * 2 ^ bit_length (n div 2)" by linarith
    with False show ?thesis by (subst bit_length.simps) simp
  qed
qed

lemma round53_id: "\<bar>n\<bar> < 2 ^ 53 \<Longrightarrow> round53 n = n"
  using bit_length_le [of "\<bar>n\<bar>" 53] by (simp add: round53_def Let_def)

lemma round53_bound:
  assumes "\<bar>n\<bar> < 2 ^ j"
  shows "\<bar>round53 n\<bar> \<le> 2 ^ j"
proof (cases "bit_length \<bar>n\<bar> \<le> 53")
  case True
  then have "round53 n = n" by (simp add: round53_def Let_def)
  with assms show ?thesis by simp
next
  case False
  define k where "k = bit_length \<bar>n\<bar>"
  define q where "q = k - 53"
  define m where "m = \<bar>n\<bar> div 2 ^ q"
  define r where "r = \<bar>n\<bar> mod 2 ^ q"
  define m' where "m' = (if 2 ^ q < 2 * r \<or> (2 * r = 2 ^ q \<and> odd m) then m + 1 else m)"
  have k: "k = q + 53" "k \<le> j"
    using False bit_length_le [OF assms] by (auto simp: k_def q_def)
  have "\<bar>n\<bar> < 2 ^ k" unfolding k_def by (rule bit_length_less) simp
  then have "\<bar>n\<bar> < 2 ^ 53 * 2 ^ q" by (simp add: k(1) power_add mult.commute)
  moreover have eq: "\<bar>n\<bar> = m * 2 ^ q + r" by (simp only: m_def r_def div_mult_mod_eq)
  moreover have "0 \<le> r" by (simp add: r_def)
  ultimately have "m * 2 ^ q < 2 ^ 53 * 2 ^ q" by linarith
  then have "m < 2 ^ 53" by (simp add: mult_less_cancel_right)
  moreover have "0 \<le> m" unfolding m_def by (simp add: pos_imp_zdiv_nonneg_iff)
  ultimately have m': "0 \<le> m'" "m' \<le> 2 ^ 53" by (auto simp: m'_def)
  have r53: "round53 n = sgn n * (m' * 2 ^ q)"
    using False by (simp add: round53_def Let_def k_def q_def m_def r_def m'_def)
  have "\<bar>round53 n\<bar> \<le> m' * 2 ^ q"
    unfolding r53 using m'(1) by (simp add: abs_mult abs_sgn_eq)
  also have "\<dots> \<le> 2 ^ 53 * 2 ^ q" using m'(2) by (simp add: mult_right_mono)
  also have "\<dots> = 2 ^ k" by (simp add: k(1) power_add mult.commute)
  also have "\<dots> \<le> 2 ^ j" using k(2) by (simp add: power_increasing)
  finally show ?thesis .
qed

lemma float_of_int_exact: "\<bar>n\<bar> < 2 ^ 53 \<Longrightarrow> float_of_int n = Inr (real_of_int n)"
proof -
  assume a: "\<bar>n\<bar> < 2 ^ 53"
  have "(2::int) ^ 53 < 2 ^ 1024" by (rule power_strict_increasing) simp_all
  with a have "\<not> 2 ^ 1024 \<le> \<bar>n\<bar>" by linarith
  with a show ?thesis by (simp add: float_of_int_def round53_id Let_def)
qed

lemma float_of_int_total:
  assumes "\<bar>n\<bar> < 2 ^ 1023"
  shows "\<exists>x. float_of_int n = Inr x"
proof -
  have "\<bar>round53 n\<bar> \<le> 2 ^ 1023" using assms by (rule round53_bound)
  moreover have "(2::int) ^ 1023 < 2 ^ 1024" by (rule power_strict_increasing) simp_all
  ultimately have "\<not> 2 ^ 1024 \<le> \<bar>round53 n\<bar>" by linarith
  then show ?thesis by (simp add: float_of_int_def Let_def)
qed

lemma round_double_exact:
  assumes "\<bar>2 * c - t\<bar> < 2 ^ 53"
  shows "round_double (real_of_int c - real_of_int t / 2)
         = Some (real_of_int c - real_of_int t / 2)"
proof -
  have e: "2 * (real_of_int c - real_of_int t / 2) = real_of_int (2 * c - t)" by simp
  have f: "\<lfloor>2 * (real_of_int c - real_of_int t / 2)\<rfloor> = 2 * c - t"
    unfolding e by (rule floor_of_int)
  have "(2::int) ^ 53 < 2 ^ 1025" by (rule power_strict_increasing) simp_all
  with assms have "\<not> 2 ^ 1025 \<le> \<bar>2 * c - t\<bar>" by linarith
  then have "round_double (real_of_int c - real_of_int t / 2)
      = Some (real_of_int (2 * c - t) / 2)"
    unfolding round_double_def f round53_id [OF assms] by (simp add: Let_def)
  then show ?thesis by simp
qed

subsection \<open>Packing\<close>

text \<open>
  C8. For every text and every code table that gives each symbol of the text a bit string,
  \<open>encode_text\<close> returns bytes and a padding count; the padding is between 0 and 7 and
  equals \<open>(8 - totalBitLength mod 8) mod 8\<close>, and the number of bytes is
  \<open>ceil(totalBitLength / 8)\<close>, where \<open>totalBitLength\<close> is the length of the concatenated codes.
\<close>

theorem encode_text_padding:
  assumes "\<forall>c\<in>set text. \<exists>code. code_table c = Some code \<and> bitstring code"
  shows "\<exists>byte_array padding.
           encode_text text code_table = Inr (byte_array, padding)
           \<and> 0 \<le> padding \<and> padding \<le> 7
           \<and> padding = (8 - int (total_bit_length text code_table) mod 8) mod 8
           \<and> int (length byte_array) = \<lceil>real (total_bit_length text code_table) / 8\<rceil>"
proof -
  from join_codes_ok [OF assms] obtain bits where
    b: "join_codes text code_table = Inr bits" "bitstring bits"
       "length bits = total_bit_length text code_table" by blast
  define padding where "padding = (8 - int (length bits) mod 8) mod 8"
  define bits' where "bits' = bits @ replicate (nat padding) CHR ''0''"
  have pr: "0 \<le> padding \<and> padding \<le> 7" unfolding padding_def by (rule padding_range)
  have "bitstring bits'" using b(2) by (simp add: bits'_def)
  moreover have len: "length bits' = length bits + nat padding" by (simp add: bits'_def)
  then have "8 dvd length bits'" unfolding padding_def by (simp only: padded_dvd)
  ultimately obtain data where
    d: "to_bytes bits' = Inr data" "length data = length bits' div 8"
    using to_bytes_ok by blast
  have e: "encode_text text code_table = Inr (data, padding)"
    using b(1) d(1) by (simp add: encode_text_def padding_def bits'_def Let_def)
  have "int (length data) = \<lceil>real (length bits) / 8\<rceil>"
    unfolding d(2) len padding_def by (rule padded_div)
  with e pr show ?thesis unfolding b(3) [symmetric] padding_def by blast
qed

theorem encode_text_padding_witness:
  "\<exists>byte_array padding.
     encode_text ''abb'' [CHR ''a'' \<mapsto> ''0'', CHR ''b'' \<mapsto> ''10''] = Inr (byte_array, padding)
     \<and> padding = 3 \<and> length byte_array = 1"
proof -
  have h: "\<forall>c\<in>set ''abb''. \<exists>code. [CHR ''a'' \<mapsto> ''0'', CHR ''b'' \<mapsto> ''10''] c = Some code \<and> bitstring code"
    by simp
  have t: "total_bit_length ''abb'' [CHR ''a'' \<mapsto> ''0'', CHR ''b'' \<mapsto> ''10''] = 5"
    by (simp add: total_bit_length_def)
  from encode_text_padding [OF h] obtain byte_array padding where
    r: "encode_text ''abb'' [CHR ''a'' \<mapsto> ''0'', CHR ''b'' \<mapsto> ''10''] = Inr (byte_array, padding)"
       "padding = (8 - int (total_bit_length ''abb'' [CHR ''a'' \<mapsto> ''0'', CHR ''b'' \<mapsto> ''10'']) mod 8) mod 8"
       "int (length byte_array)
          = \<lceil>real (total_bit_length ''abb'' [CHR ''a'' \<mapsto> ''0'', CHR ''b'' \<mapsto> ''10'']) / 8\<rceil>"
    by blast
  have "padding = 3" using r(2) unfolding t by simp
  moreover have "length byte_array = 1" using r(3) unfolding t by simp
  ultimately show ?thesis using r(1) by blast
qed

subsection \<open>Codes are paths to leaves\<close>

lemma descend_append:
  "descend t (p @ q) = (case descend t p of None \<Rightarrow> None | Some n \<Rightarrow> descend n q)"
  by (induction p arbitrary: t) (auto split: option.splits)

lemma descend_leaf: "char_of n = Some c \<Longrightarrow> descend n q = Some m \<Longrightarrow> q = [] \<and> m = n"
  by (cases q) auto

lemma generate_codes_path:
  "generate_codes t pre a = Some x \<Longrightarrow>
     (char_of t = Some a \<and> x = (if pre \<noteq> [] then pre else ''0''))
   \<or> (char_of t = None \<and> (\<exists>p n. x = pre @ p \<and> p \<noteq> [] \<and> bitstring p
          \<and> descend t p = Some n \<and> char_of n = Some a))"
proof (induction t arbitrary: pre x)
  case (Node ch f l r)
  show ?case
  proof (cases ch)
    case (Some c)
    with Node.prems show ?thesis by (auto split: if_splits)
  next
    case None
    let ?L = "case l of None \<Rightarrow> Map.empty | Some lt \<Rightarrow> generate_codes lt (pre @ ''0'')"
    let ?R = "case r of None \<Rightarrow> Map.empty | Some rt \<Rightarrow> generate_codes rt (pre @ ''1'')"
    from Node.prems None have "(?L ++ ?R) a = Some x" by simp
    then consider (right) "?R a = Some x" | (left) "?L a = Some x"
      by (auto simp: map_add_Some_iff)
    then show ?thesis
    proof cases
      case right
      then obtain rt where rt: "r = Some rt" "generate_codes rt (pre @ ''1'') a = Some x"
        by (cases r) auto
      from Node.IH(2) [of rt "pre @ ''1''" x] rt
      have "(char_of rt = Some a \<and> x = pre @ ''1'')
          \<or> (char_of rt = None \<and> (\<exists>p n. x = (pre @ ''1'') @ p \<and> p \<noteq> [] \<and> bitstring p
                \<and> descend rt p = Some n \<and> char_of n = Some a))" by auto
      then show ?thesis
      proof
        assume "char_of rt = Some a \<and> x = pre @ ''1''"
        then have "x = pre @ ''1'' \<and> ''1'' \<noteq> [] \<and> bitstring ''1''
            \<and> descend (Node ch f l r) ''1'' = Some rt \<and> char_of rt = Some a"
          using None rt(1) by (simp add: bitstring_def)
        then show ?thesis using None by (metis tree.sel(1))
      next
        assume "char_of rt = None \<and> (\<exists>p n. x = (pre @ ''1'') @ p \<and> p \<noteq> [] \<and> bitstring p
                \<and> descend rt p = Some n \<and> char_of n = Some a)"
        then obtain p n where p: "x = (pre @ ''1'') @ p" "bitstring p"
          "descend rt p = Some n" "char_of n = Some a" by blast
        then have "x = pre @ (''1'' @ p) \<and> ''1'' @ p \<noteq> [] \<and> bitstring (''1'' @ p)
            \<and> descend (Node ch f l r) (''1'' @ p) = Some n \<and> char_of n = Some a"
          using None rt(1) by (simp add: bitstring_def)
        then show ?thesis using None by (metis tree.sel(1))
      qed
    next
      case left
      then obtain lt where lt: "l = Some lt" "generate_codes lt (pre @ ''0'') a = Some x"
        by (cases l) auto
      from Node.IH(1) [of lt "pre @ ''0''" x] lt
      have "(char_of lt = Some a \<and> x = pre @ ''0'')
          \<or> (char_of lt = None \<and> (\<exists>p n. x = (pre @ ''0'') @ p \<and> p \<noteq> [] \<and> bitstring p
                \<and> descend lt p = Some n \<and> char_of n = Some a))" by auto
      then show ?thesis
      proof
        assume "char_of lt = Some a \<and> x = pre @ ''0''"
        then have "x = pre @ ''0'' \<and> ''0'' \<noteq> [] \<and> bitstring ''0''
            \<and> descend (Node ch f l r) ''0'' = Some lt \<and> char_of lt = Some a"
          using None lt(1) by (simp add: bitstring_def)
        then show ?thesis using None by (metis tree.sel(1))
      next
        assume "char_of lt = None \<and> (\<exists>p n. x = (pre @ ''0'') @ p \<and> p \<noteq> [] \<and> bitstring p
                \<and> descend lt p = Some n \<and> char_of n = Some a)"
        then obtain p n where p: "x = (pre @ ''0'') @ p" "bitstring p"
          "descend lt p = Some n" "char_of n = Some a" by blast
        then have "x = pre @ (''0'' @ p) \<and> ''0'' @ p \<noteq> [] \<and> bitstring (''0'' @ p)
            \<and> descend (Node ch f l r) (''0'' @ p) = Some n \<and> char_of n = Some a"
          using None lt(1) by (simp add: bitstring_def)
        then show ?thesis using None by (metis tree.sel(1))
      qed
    qed
  qed
qed

text \<open>
  C4. The code table that \<open>generate_codes\<close> derives from a tree is prefix-free: for two
  different symbols of the table, the code of one is never a prefix of the code of the other.
  This holds for every tree, so in particular for trees with two leaves or more.
\<close>

theorem generate_codes_prefix_free: "prefix_free (generate_codes t [])"
  unfolding prefix_free_def
proof (intro allI impI notI, elim conjE)
  fix a b :: 'a and x y
  assume ab: "a \<noteq> b" and x: "generate_codes t [] a = Some x" and y: "generate_codes t [] b = Some y"
    and pre: "is_prefix x y"
  from generate_codes_path [OF x] generate_codes_path [OF y] ab
  obtain p n q m where
    p: "x = p" "descend t p = Some n" "char_of n = Some a" and
    q: "y = q" "descend t q = Some m" "char_of m = Some b"
    by auto
  from pre p(1) q(1) have "q = p @ drop (length p) q"
    by (metis append_take_drop_id is_prefix_def)
  then obtain s where s: "q = p @ s" ..
  with q(2) p(2) have "descend n s = Some m" by (simp add: descend_append)
  from descend_leaf [OF p(3) this] have "m = n" by simp
  with p(3) q(3) ab show False by simp
qed

theorem generate_codes_prefix_free_witness:
  "\<exists>x y. generate_codes (Node None 3 (Some (Node (Some CHR ''a'') 2 None None))
             (Some (Node None 1 (Some (Node (Some CHR ''b'') 1 None None))
                (Some (Node (Some CHR ''c'') 1 None None))))) [] CHR ''a'' = Some x
       \<and> generate_codes (Node None 3 (Some (Node (Some CHR ''a'') 2 None None))
             (Some (Node None 1 (Some (Node (Some CHR ''b'') 1 None None))
                (Some (Node (Some CHR ''c'') 1 None None))))) [] CHR ''b'' = Some y
       \<and> x = ''0'' \<and> y = ''10'' \<and> \<not> is_prefix x y"
proof -
  let ?t = "Node None 3 (Some (Node (Some CHR ''a'') 2 None None))
             (Some (Node None 1 (Some (Node (Some CHR ''b'') 1 None None))
                (Some (Node (Some CHR ''c'') 1 None None))))"
  have a: "generate_codes ?t [] CHR ''a'' = Some ''0''" by (simp add: map_add_def)
  have b: "generate_codes ?t [] CHR ''b'' = Some ''10''" by (simp add: map_add_def)
  have "CHR ''a'' \<noteq> CHR ''b''" by simp
  with a b generate_codes_prefix_free [of ?t] have "\<not> is_prefix ''0'' ''10''"
    unfolding prefix_free_def by blast
  with a b show ?thesis by blast
qed

subsection \<open>Empty input\<close>

lemma shannon_fano_split_empty: "shannon_fano_split [] = Inr 1"
  by (simp add: shannon_fano_split_def float_of_int_def round53_def bit_length.simps)

lemma build_shannon_tree_empty: "build_shannon_tree limit [] = Inl RecursionError"
  by (induction limit) (simp_all add: shannon_fano_split_empty)

text \<open>
  C2. On the empty text neither compressor returns an empty payload.
  \<open>shannon_fano_compress\<close> splits the empty item list at index 1 into two empty lists and
  recurses on both until Python's recursion limit raises \<open>RecursionError\<close>, whatever the limit;
  \<open>huffman_compress\<close> gets the tree \<open>None\<close> from \<open>build_huffman_tree\<close> and raises \<open>TypeError\<close>
  in \<open>generate_codes\<close>.
\<close>

theorem compress_empty_raises:
  "shannon_fano_compress limit [] = Inl RecursionError \<and> huffman_compress ident [] = Inl TypeError"
  by (simp add: shannon_fano_compress_def huffman_compress_def analyze_frequencies_def
      sorted_items_def build_shannon_tree_empty build_huffman_tree_def leaf_heap_def
      huffman_loop.simps)

subsection \<open>A text of one repeated symbol\<close>

lemma to_bytes_zero: "to_bytes ''00000000'' = Inr [0]"
proof -
  have "int2 ''00000000'' = Inr (int (bin_value ''00000000''))"
    by (rule int2_bitstring) simp_all
  then show ?thesis by (simp add: to_bytes.simps bin_value_def)
qed

text \<open>
  C1. The round trip fails on \<open>"aaaa"\<close> with both algorithms. The tree is a single leaf,
  \<open>generate_codes\<close> gives it the code \<open>"0"\<close> and the text packs into one zero byte with padding 4;
  \<open>decode_bits\<close> then reads \<open>node['left']\<close> of the leaf at the first bit and raises \<open>KeyError\<close>
  instead of returning \<open>"aaaa"\<close>.
\<close>

theorem single_symbol_roundtrip_raises:
  "shannon_fano_roundtrip (Suc limit) ''aaaa'' = Inl KeyError
   \<and> huffman_roundtrip ident ''aaaa'' = Inl KeyError"
  by (simp add: shannon_fano_roundtrip_def shannon_fano_compress_def analyze_frequencies_def
      sorted_items_def encode_text_def to_bytes_zero shannon_fano_decompress_def
      huffman_roundtrip_def huffman_compress_def build_huffman_tree_def leaf_heap_def
      heappush_def huffman_loop.simps huffman_decompress_def
      bytes_to_bits_def format_08b_def decode_bits_def numeral_eq_Suc)

subsection \<open>The Shannon-Fano builder\<close>

lemma abs_sum_list_le: "\<bar>sum_list (map snd xs)\<bar> \<le> sum_list (map (\<lambda>x. \<bar>snd x\<bar>) xs)"
  for xs :: "('a \<times> int) list"
  by (induction xs) auto

lemma abs_weights_nonneg: "0 \<le> sum_list (map (\<lambda>x. \<bar>snd x\<bar>) xs)"
  for xs :: "('a \<times> int) list"
  by (induction xs) auto

lemma abs_weights_take_drop:
  "sum_list (map (\<lambda>x. \<bar>snd x\<bar>) (take k xs)) + sum_list (map (\<lambda>x. \<bar>snd x\<bar>) (drop k xs))
   = sum_list (map (\<lambda>x. \<bar>snd x\<bar>) xs)"
  for xs :: "('a \<times> int) list"
  by (metis append_take_drop_id map_append sum_list_append)

lemma shannon_fano_split_range:
  "shannon_fano_split items = Inr s \<Longrightarrow> 2 \<le> length items \<Longrightarrow>
   1 \<le> s \<and> s \<le> int (length items) - 1"
  by (auto simp: shannon_fano_split_def Let_def split: sum.splits)

lemma split_loop_total:
  "\<bar>cumulative\<bar> + sum_list (map (\<lambda>x. \<bar>snd x\<bar>) rest) < 2 ^ 1023 \<Longrightarrow>
   \<exists>b. split_loop rest half i cumulative best_split min_diff = Inr b"
proof (induction rest arbitrary: i cumulative best_split min_diff)
  case Nil
  then show ?case by simp
next
  case (Cons item rest)
  have w: "0 \<le> sum_list (map (\<lambda>x. \<bar>snd x\<bar>) rest)" by (rule abs_weights_nonneg)
  have b: "\<bar>cumulative + snd item\<bar> + sum_list (map (\<lambda>x. \<bar>snd x\<bar>) rest) < 2 ^ 1023"
    using Cons.prems by simp
  with w have "\<bar>cumulative + snd item\<bar> < 2 ^ 1023" by linarith
  then obtain c where c: "float_of_int (cumulative + snd item) = Inr c"
    using float_of_int_total by blast
  show ?case
  proof (cases "less_min (map_option abs (round_double (c - half))) min_diff")
    case True
    with Cons.IH [OF b] c show ?thesis by (simp add: Let_def)
  next
    case False
    with Cons.IH [OF b] c show ?thesis by (simp add: Let_def)
  qed
qed

lemma shannon_fano_split_total:
  assumes "sum_list (map (\<lambda>x. \<bar>snd x\<bar>) items) < 2 ^ 1023"
  shows "\<exists>s. shannon_fano_split items = Inr s"
proof -
  have "\<bar>sum_list (map snd items)\<bar> < 2 ^ 1023"
    using assms abs_sum_list_le [of items] by linarith
  then obtain t where t: "float_of_int (sum_list (map snd items)) = Inr t"
    using float_of_int_total by blast
  have "\<bar>0::int\<bar> + sum_list (map (\<lambda>x. \<bar>snd x\<bar>) items) < 2 ^ 1023" using assms by simp
  from split_loop_total [OF this] obtain b where
    "split_loop items (t / 2) 0 0 1 None = Inr b" by blast
  with t show ?thesis by (simp add: shannon_fano_split_def Let_def)
qed

lemma build_shannon_tree_sound:
  "build_shannon_tree limit items = Inr t \<Longrightarrow>
   full t \<and> (char_of t = None \<longleftrightarrow> length items \<noteq> 1)"
proof (induction limit arbitrary: items t)
  case 0
  then show ?case by simp
next
  case (Suc limit)
  show ?case
  proof (cases "length items = 1")
    case True
    with Suc.prems show ?thesis by auto
  next
    case False
    with Suc.prems obtain s l r where
      l: "build_shannon_tree limit (take (nat s) items) = Inr l" and
      r: "build_shannon_tree limit (drop (nat s) items) = Inr r" and
      t: "t = Node None (sum_list (map snd items)) (Some l) (Some r)"
      by (auto simp: Let_def split: sum.splits)
    from Suc.IH [OF l] Suc.IH [OF r] t False show ?thesis by simp
  qed
qed

lemma build_shannon_tree_total:
  "items \<noteq> [] \<Longrightarrow> length items \<le> limit \<Longrightarrow>
   sum_list (map (\<lambda>x. \<bar>snd x\<bar>) items) < 2 ^ 1023 \<Longrightarrow>
   \<exists>t. build_shannon_tree limit items = Inr t \<and> symbols t = fst ` set items"
proof (induction limit arbitrary: items)
  case 0
  then show ?case by simp
next
  case (Suc limit)
  show ?case
  proof (cases "length items = 1")
    case True
    then obtain x where "items = [x]" by (cases items) auto
    then show ?thesis by simp
  next
    case False
    moreover from Suc.prems(1) have "length items \<noteq> 0" by simp
    ultimately have n: "2 \<le> length items" by linarith
    from shannon_fano_split_total [OF Suc.prems(3)] obtain sp where
      sp: "shannon_fano_split items = Inr sp" by blast
    define s where "s = nat sp"
    from shannon_fano_split_range [OF sp n] have s: "1 \<le> s" "s \<le> length items - 1"
      by (auto simp: s_def)
    have wl: "sum_list (map (\<lambda>x. \<bar>snd x\<bar>) (take s items)) < 2 ^ 1023"
      using abs_weights_take_drop [of s items] abs_weights_nonneg [of "drop s items"]
        Suc.prems(3) by linarith
    have wr: "sum_list (map (\<lambda>x. \<bar>snd x\<bar>) (drop s items)) < 2 ^ 1023"
      using abs_weights_take_drop [of s items] abs_weights_nonneg [of "take s items"]
        Suc.prems(3) by linarith
    have "take s items \<noteq> []" "length (take s items) \<le> limit"
      using s n Suc.prems(2) by auto
    from Suc.IH [OF this wl] obtain l where
      l: "build_shannon_tree limit (take s items) = Inr l" "symbols l = fst ` set (take s items)"
      by blast
    have "drop s items \<noteq> []" "length (drop s items) \<le> limit"
      using s n Suc.prems(2) by auto
    from Suc.IH [OF this wr] obtain r where
      r: "build_shannon_tree limit (drop s items) = Inr r" "symbols r = fst ` set (drop s items)"
      by blast
    have "set items = set (take s items) \<union> set (drop s items)"
      by (metis append_take_drop_id set_append)
    then have "fst ` set items = symbols l \<union> symbols r"
      using l(2) r(2) by (simp add: image_Un)
    then show ?thesis using False sp l(1) r(1) by (simp add: s_def [symmetric] Let_def)
  qed
qed

lemma float_of_int_error: "float_of_int n = Inl e \<Longrightarrow> e = OverflowError"
  by (simp add: float_of_int_def Let_def split: if_splits)

lemma split_loop_error:
  "split_loop rest half i cumulative best_split min_diff = Inl e \<Longrightarrow> e = OverflowError"
proof (induction rest arbitrary: i cumulative best_split min_diff)
  case Nil
  then show ?case by simp
next
  case (Cons item rest)
  show ?case
  proof (cases "float_of_int (cumulative + snd item)")
    case (Inl e')
    with Cons.prems have "e = e'" by (simp add: Let_def)
    with Inl show ?thesis using float_of_int_error by blast
  next
    case (Inr c)
    show ?thesis
    proof (cases "less_min (map_option abs (round_double (c - half))) min_diff")
      case True
      with Cons.prems Inr have
        "split_loop rest half (i + 1) (cumulative + snd item) (int i + 1)
           (map_option abs (round_double (c - half))) = Inl e"
        by (simp add: Let_def)
      then show ?thesis by (rule Cons.IH)
    next
      case False
      with Cons.prems Inr have
        "split_loop rest half (i + 1) (cumulative + snd item) best_split min_diff = Inl e"
        by (simp add: Let_def)
      then show ?thesis by (rule Cons.IH)
    qed
  qed
qed

lemma shannon_fano_split_error: "shannon_fano_split items = Inl e \<Longrightarrow> e = OverflowError"
proof (cases "float_of_int (sum_list (map snd items))")
  case (Inl e')
  assume "shannon_fano_split items = Inl e"
  with Inl have "e = e'" by (simp add: shannon_fano_split_def Let_def)
  with Inl show ?thesis using float_of_int_error by blast
next
  case (Inr t)
  assume a: "shannon_fano_split items = Inl e"
  show ?thesis
  proof (cases "split_loop items (t / 2) 0 0 1 None")
    case (Inl e')
    with a Inr have "e = e'" by (simp add: shannon_fano_split_def Let_def)
    with Inl show ?thesis using split_loop_error by blast
  next
    case (Inr b)
    with a \<open>float_of_int (sum_list (map snd items)) = Inr t\<close> show ?thesis
      by (simp add: shannon_fano_split_def Let_def)
  qed
qed

lemma build_shannon_tree_within_limit:
  "items \<noteq> [] \<Longrightarrow> length items \<le> limit \<Longrightarrow>
   (\<exists>t. build_shannon_tree limit items = Inr t) \<or> build_shannon_tree limit items = Inl OverflowError"
proof (induction limit arbitrary: items)
  case 0
  then show ?case by simp
next
  case (Suc limit)
  show ?case
  proof (cases "length items = 1")
    case True
    then show ?thesis by simp
  next
    case False
    moreover from Suc.prems(1) have "length items \<noteq> 0" by simp
    ultimately have n: "2 \<le> length items" by linarith
    show ?thesis
    proof (cases "shannon_fano_split items")
      case (Inl e)
      then have "e = OverflowError" by (rule shannon_fano_split_error)
      with Inl False show ?thesis by simp
    next
      case (Inr sp)
      define s where "s = nat sp"
      from shannon_fano_split_range [OF Inr n] have s: "1 \<le> s" "s \<le> length items - 1"
        by (auto simp: s_def)
      have tl: "take s items \<noteq> []" "length (take s items) \<le> limit"
        using s n Suc.prems(2) by auto
      have dl: "drop s items \<noteq> []" "length (drop s items) \<le> limit"
        using s n Suc.prems(2) by auto
      show ?thesis
      proof (cases "build_shannon_tree limit (take s items)")
        case (Inl e)
        with Suc.IH [OF tl] have "build_shannon_tree limit (take s items) = Inl OverflowError"
          by auto
        with False Inr show ?thesis by (simp add: s_def [symmetric] Let_def)
      next
        case l: (Inr l)
        show ?thesis
        proof (cases "build_shannon_tree limit (drop s items)")
          case (Inl e)
          with Suc.IH [OF dl] have "build_shannon_tree limit (drop s items) = Inl OverflowError"
            by auto
          with False Inr l show ?thesis by (simp add: s_def [symmetric] Let_def)
        next
          case r: (Inr r)
          with False Inr l show ?thesis by (simp add: s_def [symmetric] Let_def)
        qed
      qed
    qed
  qed
qed

subsection \<open>The Huffman builder\<close>

lemma set_heappush [simp]: "set (heappush heap item) = insert item (set heap)"
  by (simp add: heappush_def set_insort_key)

lemma length_heappush [simp]: "length (heappush heap item) = Suc (length heap)"
  by (simp add: heappush_def)

lemma huffman_loop_short: "length heap \<le> 1 \<Longrightarrow> huffman_loop ident n heap = heap"
  by (subst huffman_loop.simps) (auto split: list.splits)

lemma huffman_loop_step:
  "huffman_loop ident n (a # b # heap') =
   huffman_loop ident (Suc n)
     (heappush heap' (fst a + fst b, ident (Merged n),
        Node None (fst a + fst b) (Some (snd (snd a))) (Some (snd (snd b)))))"
  by (subst huffman_loop.simps) (simp add: Let_def split: prod.splits)

lemma huffman_loop_induct [consumes 0, case_names short step]:
  assumes short: "\<And>n heap. length heap \<le> 1 \<Longrightarrow> P n heap"
    and step: "\<And>n a b heap'.
      P (Suc n) (heappush heap' (fst a + fst b, ident (Merged n),
        Node None (fst a + fst b) (Some (snd (snd a))) (Some (snd (snd b))))) \<Longrightarrow>
      P n (a # b # heap')"
  shows "P n heap"
proof (induction "length heap" arbitrary: n heap rule: less_induct)
  case less
  show ?case
  proof (cases heap)
    case Nil
    then show ?thesis by (simp add: short)
  next
    case (Cons a tl)
    show ?thesis
    proof (cases tl)
      case Nil
      with Cons show ?thesis by (simp add: short)
    next
      case (Cons b heap')
      with \<open>heap = a # tl\<close> have h: "heap = a # b # heap'" by simp
      show ?thesis unfolding h
        by (rule step, rule less) (simp add: h)
    qed
  qed
qed

lemma huffman_loop_full:
  "\<forall>item\<in>set heap. full (snd (snd item)) \<Longrightarrow>
   \<forall>item\<in>set (huffman_loop ident n heap). full (snd (snd item))"
proof (induction n heap rule: huffman_loop_induct [where ident = ident])
  case (short n heap)
  then show ?case by (simp add: huffman_loop_short)
next
  case (step n a b heap')
  show ?case unfolding huffman_loop_step
    by (rule step.IH) (use step.prems in simp)
qed

lemma huffman_loop_symbols:
  "(\<Union>item\<in>set (huffman_loop ident n heap). symbols (snd (snd item)))
   = (\<Union>item\<in>set heap. symbols (snd (snd item)))"
proof (induction n heap rule: huffman_loop_induct [where ident = ident])
  case (short n heap)
  then show ?case by (simp add: huffman_loop_short)
next
  case (step n a b heap')
  show ?case unfolding huffman_loop_step step.IH by auto
qed

lemma huffman_loop_single:
  "heap \<noteq> [] \<Longrightarrow>
   \<exists>item. huffman_loop ident n heap = [item] \<and> (2 \<le> length heap \<longrightarrow> char_of (snd (snd item)) = None)"
proof (induction n heap rule: huffman_loop_induct [where ident = ident])
  case (short n heap)
  then obtain item where "heap = [item]" by (cases heap) auto
  then have "huffman_loop ident n heap = [item] \<and> \<not> 2 \<le> length heap"
    by (simp add: huffman_loop_short)
  then show ?case by blast
next
  case (step n a b heap')
  let ?m = "(fst a + fst b, ident (Merged n),
        Node None (fst a + fst b) (Some (snd (snd a))) (Some (snd (snd b))))"
  have ne: "heappush heap' ?m \<noteq> []" by (metis length_heappush length_0_conv nat.simps(3))
  from step.IH [OF ne] obtain item where
    i: "huffman_loop ident (Suc n) (heappush heap' ?m) = [item]"
       "2 \<le> length (heappush heap' ?m) \<longrightarrow> char_of (snd (snd item)) = None" by blast
  have "char_of (snd (snd item)) = None"
  proof (cases heap')
    case Nil
    then have "huffman_loop ident (Suc n) (heappush heap' ?m) = [?m]"
      by (simp add: huffman_loop_short heappush_def)
    with i(1) have "item = ?m" by simp
    then show ?thesis by simp
  next
    case (Cons c heap'')
    then show ?thesis using i(2) by simp
  qed
  with i(1) show ?case unfolding huffman_loop_step by simp
qed

lemma leaf_heap_fold:
  "set (foldl (\<lambda>heap (c, freq). heappush heap (freq, ident (Char c), Node (Some c) freq None None))
          acc frequencies)
   = set acc \<union> (\<lambda>(c, freq). (freq, ident (Char c), Node (Some c) freq None None)) ` set frequencies
   \<and> length (foldl (\<lambda>heap (c, freq). heappush heap (freq, ident (Char c), Node (Some c) freq None None))
          acc frequencies) = length acc + length frequencies"
  by (induction frequencies arbitrary: acc) (auto split: prod.splits)

lemma set_leaf_heap:
  "set (leaf_heap ident frequencies)
   = (\<lambda>(c, freq). (freq, ident (Char c), Node (Some c) freq None None)) ` set frequencies"
  using leaf_heap_fold [of ident "[]" frequencies] by (simp add: leaf_heap_def)

lemma length_leaf_heap: "length (leaf_heap ident frequencies) = length frequencies"
  using leaf_heap_fold [of ident "[]" frequencies] by (simp add: leaf_heap_def)

lemma build_huffman_tree_sound:
  assumes "build_huffman_tree ident frequencies = Some t"
  shows "full t"
proof -
  have "\<forall>item\<in>set (leaf_heap ident frequencies). full (snd (snd item))"
    by (auto simp: set_leaf_heap)
  then have "\<forall>item\<in>set (huffman_loop ident 0 (leaf_heap ident frequencies)). full (snd (snd item))"
    by (rule huffman_loop_full)
  with assms show ?thesis by (auto simp: build_huffman_tree_def split: list.splits)
qed

lemma build_huffman_tree_total:
  assumes "frequencies \<noteq> []"
  shows "\<exists>t. build_huffman_tree ident frequencies = Some t \<and> symbols t = fst ` set frequencies
           \<and> (2 \<le> length frequencies \<longrightarrow> char_of t = None)"
proof -
  let ?h = "leaf_heap ident frequencies"
  have ne: "?h \<noteq> []" using assms length_leaf_heap [of ident frequencies] by auto
  from huffman_loop_single [OF ne, of ident 0] obtain item where
    i: "huffman_loop ident 0 ?h = [item]" "2 \<le> length ?h \<longrightarrow> char_of (snd (snd item)) = None"
    by blast
  have "symbols (snd (snd item)) = (\<Union>it\<in>set ?h. symbols (snd (snd it)))"
    using huffman_loop_symbols [of ident 0 ?h] i(1) by simp
  also have "\<dots> = fst ` set frequencies" by (force simp: set_leaf_heap)
  finally show ?thesis using i by (simp add: build_huffman_tree_def length_leaf_heap)
qed

text \<open>
  C5. Every tree returned by either builder is full: each node is a leaf without children or
  an internal node with exactly two children. On a non-empty item list, as soon as the
  recursion limit is at least the number of items, \<open>build_shannon_tree\<close> returns such a tree
  or raises \<open>OverflowError\<close> (a weight sum beyond the range of a double); it returns one
  where the absolute weights sum to less than \<open>2 ^ 1023\<close>. On a non-empty frequency table
  \<open>build_huffman_tree\<close> always returns one.
\<close>

theorem builders_full:
  "(\<forall>t. build_shannon_tree limit items = Inr t \<longrightarrow> full t)
   \<and> (items \<noteq> [] \<and> length items \<le> limit
        \<longrightarrow> (\<exists>t. build_shannon_tree limit items = Inr t \<and> full t)
            \<or> build_shannon_tree limit items = Inl OverflowError)
   \<and> (items \<noteq> [] \<and> length items \<le> limit \<and> sum_list (map (\<lambda>x. \<bar>snd x\<bar>) items) < 2 ^ 1023
        \<longrightarrow> (\<exists>t. build_shannon_tree limit items = Inr t \<and> full t))
   \<and> (\<forall>t. build_huffman_tree ident frequencies = Some t \<longrightarrow> full t)
   \<and> (frequencies \<noteq> [] \<longrightarrow> (\<exists>t. build_huffman_tree ident frequencies = Some t \<and> full t))"
proof (intro conjI allI impI)
  fix t assume "build_shannon_tree limit items = Inr t"
  then show "full t" using build_shannon_tree_sound by blast
next
  assume "items \<noteq> [] \<and> length items \<le> limit"
  then have "(\<exists>t. build_shannon_tree limit items = Inr t)
             \<or> build_shannon_tree limit items = Inl OverflowError"
    using build_shannon_tree_within_limit by blast
  then show "(\<exists>t. build_shannon_tree limit items = Inr t \<and> full t)
             \<or> build_shannon_tree limit items = Inl OverflowError"
    using build_shannon_tree_sound by blast
next
  assume "items \<noteq> [] \<and> length items \<le> limit
          \<and> sum_list (map (\<lambda>x. \<bar>snd x\<bar>) items) < 2 ^ 1023"
  then obtain t where "build_shannon_tree limit items = Inr t"
    using build_shannon_tree_total by blast
  then show "\<exists>t. build_shannon_tree limit items = Inr t \<and> full t"
    using build_shannon_tree_sound by blast
next
  fix t assume "build_huffman_tree ident frequencies = Some t"
  then show "full t" by (rule build_huffman_tree_sound)
next
  assume "frequencies \<noteq> []"
  then obtain t where "build_huffman_tree ident frequencies = Some t"
    using build_huffman_tree_total by blast
  then show "\<exists>t. build_huffman_tree ident frequencies = Some t \<and> full t"
    using build_huffman_tree_sound by blast
qed

theorem builders_full_witness:
  "(\<exists>t. build_shannon_tree 3 [(CHR ''a'', 2), (CHR ''b'', 1), (CHR ''c'', 1)] = Inr t \<and> full t)
   \<and> (\<exists>t. build_huffman_tree ident_up [(CHR ''a'', 2), (CHR ''b'', 1), (CHR ''c'', 1)] = Some t \<and> full t)"
proof -
  let ?items = "[(CHR ''a'', 2::int), (CHR ''b'', 1), (CHR ''c'', 1)]"
  have "(4::int) < 2 ^ 1023" by simp
  then have h: "?items \<noteq> [] \<and> length ?items \<le> 3 \<and> sum_list (map (\<lambda>x. \<bar>snd x\<bar>) ?items) < 2 ^ 1023"
    by simp
  from builders_full [of 3 ?items ident_up ?items] h show ?thesis by blast
qed

subsection \<open>The split index\<close>

lemma first_minimum_new:
  assumes "first_minimum items i b" "left_diff items (Suc i) < left_diff items b"
  shows "first_minimum items (Suc i) (Suc i)"
  unfolding first_minimum_def
proof (intro conjI ballI)
  fix k assume "k \<in> {1..Suc i}"
  then have "k = Suc i \<or> k \<in> {1..i}" by auto
  then show "left_diff items (Suc i) \<le> left_diff items k"
    using assms unfolding first_minimum_def by force
next
  fix k assume "k \<in> {1..<Suc i}"
  then have "k \<in> {1..i}" by auto
  then have "left_diff items b \<le> left_diff items k"
    using assms(1) unfolding first_minimum_def by blast
  with assms(2) show "left_diff items (Suc i) < left_diff items k" by linarith
qed simp_all

lemma first_minimum_keep:
  assumes "first_minimum items i b" "\<not> left_diff items (Suc i) < left_diff items b"
  shows "first_minimum items (Suc i) b"
  unfolding first_minimum_def
proof (intro conjI ballI)
  fix k assume "k \<in> {1..Suc i}"
  then have "k = Suc i \<or> k \<in> {1..i}" by auto
  then show "left_diff items b \<le> left_diff items k"
    using assms unfolding first_minimum_def by force
next
  fix k assume "k \<in> {1..<b}"
  then show "left_diff items b < left_diff items k"
    using assms(1) unfolding first_minimum_def by blast
qed (use assms(1) in \<open>auto simp: first_minimum_def\<close>)

lemma first_minimum_one: "first_minimum items (Suc 0) (Suc 0)"
  by (simp add: first_minimum_def)

lemma split_loop_first_minimum:
  assumes "items = seen @ rest"
    and "if seen = [] then min_diff = None
         else \<exists>b. best_split = int b \<and> min_diff = Some (left_diff items b)
                \<and> first_minimum items (length seen) b"
    and "items \<noteq> []"
    and "sum_list (map (\<lambda>x. \<bar>snd x\<bar>) items) < 2 ^ 53"
  shows "\<exists>b. split_loop rest (real_of_int (sum_list (map snd items)) / 2) (length seen)
                (sum_list (map snd seen)) best_split min_diff = Inr (int b)
             \<and> first_minimum items (length items) b"
  using assms(1,2)
proof (induction rest arbitrary: seen best_split min_diff)
  case Nil
  with assms(3) show ?case by auto
next
  case (Cons x rest)
  let ?half = "real_of_int (sum_list (map snd items)) / 2"
  let ?seen = "seen @ [x]"
  let ?cum = "sum_list (map snd seen) + snd x"
  have items: "items = ?seen @ rest" using Cons.prems(1) by simp
  have tk: "take (Suc (length seen)) items = ?seen" using items by simp
  have len: "length ?seen = Suc (length seen)" by simp
  have cum: "sum_list (map snd ?seen) = ?cum" by simp
  have w: "sum_list (map (\<lambda>x. \<bar>snd x\<bar>) ?seen) + sum_list (map (\<lambda>x. \<bar>snd x\<bar>) rest) < 2 ^ 53"
    using assms(4) unfolding items by simp
  have a1: "\<bar>?cum\<bar> \<le> sum_list (map (\<lambda>x. \<bar>snd x\<bar>) ?seen)"
    using abs_sum_list_le [of ?seen] by simp
  have a2: "\<bar>sum_list (map snd rest)\<bar> \<le> sum_list (map (\<lambda>x. \<bar>snd x\<bar>) rest)"
    by (rule abs_sum_list_le)
  have tot: "sum_list (map snd items) = ?cum + sum_list (map snd rest)"
    unfolding items by simp
  have "\<bar>?cum\<bar> < 2 ^ 53"
    using a1 w abs_weights_nonneg [of rest] by linarith
  then have fc: "float_of_int ?cum = Inr (real_of_int ?cum)" by (rule float_of_int_exact)
  have "2 * ?cum - sum_list (map snd items) = ?cum - sum_list (map snd rest)"
    unfolding tot by simp
  moreover have "\<bar>?cum - sum_list (map snd rest)\<bar> \<le> \<bar>?cum\<bar> + \<bar>sum_list (map snd rest)\<bar>"
    by (rule abs_triangle_ineq4)
  ultimately have "\<bar>2 * ?cum - sum_list (map snd items)\<bar>
      \<le> sum_list (map (\<lambda>x. \<bar>snd x\<bar>) ?seen) + sum_list (map (\<lambda>x. \<bar>snd x\<bar>) rest)"
    using a1 a2 by linarith
  then have "\<bar>2 * ?cum - sum_list (map snd items)\<bar> < 2 ^ 53"
    using w by (rule le_less_trans)
  then have rd: "round_double (real_of_int ?cum - ?half) = Some (real_of_int ?cum - ?half)"
    by (rule round_double_exact)
  have ld: "\<bar>real_of_int ?cum - ?half\<bar> = left_diff items (Suc (length seen))"
    unfolding left_diff_def tk cum ..
  have diff: "map_option abs (round_double (real_of_int ?cum - ?half))
        = Some (left_diff items (Suc (length seen)))"
    unfolding rd ld [symmetric] by simp
  have step: "split_loop (x # rest) ?half (length seen) (sum_list (map snd seen)) best_split min_diff
      = (if less_min (Some (left_diff items (Suc (length seen)))) min_diff
         then split_loop rest ?half (Suc (length seen)) ?cum (int (length seen) + 1)
                (Some (left_diff items (Suc (length seen))))
         else split_loop rest ?half (Suc (length seen)) ?cum best_split min_diff)"
    by (simp only: split_loop.simps Let_def fc sum.case diff Suc_eq_plus1)
  show ?case
  proof (cases "less_min (Some (left_diff items (Suc (length seen)))) min_diff")
    case True
    have fm: "first_minimum items (Suc (length seen)) (Suc (length seen))"
    proof (cases "seen = []")
      case True
      then show ?thesis by (simp add: first_minimum_one)
    next
      case False
      with Cons.prems(2) obtain b where
        b: "min_diff = Some (left_diff items b)" "first_minimum items (length seen) b" by auto
      with True have "left_diff items (Suc (length seen)) < left_diff items b" by simp
      with b(2) show ?thesis by (rule first_minimum_new)
    qed
    have inv: "if ?seen = [] then Some (left_diff items (Suc (length seen))) = None
         else \<exists>b. int (length seen) + 1 = int b
                \<and> Some (left_diff items (Suc (length seen))) = Some (left_diff items b)
                \<and> first_minimum items (length ?seen) b"
      using fm by (auto intro!: exI [of _ "Suc (length seen)"])
    from Cons.IH [OF items inv] True show ?thesis
      unfolding len cum step by simp
  next
    case False
    then have ne: "seen \<noteq> []" using Cons.prems(2) by (cases "seen = []") auto
    with Cons.prems(2) obtain b where
      b: "best_split = int b" "min_diff = Some (left_diff items b)"
         "first_minimum items (length seen) b" by auto
    from False b(2) have "\<not> left_diff items (Suc (length seen)) < left_diff items b" by simp
    with b(3) have fm: "first_minimum items (Suc (length seen)) b" by (rule first_minimum_keep)
    have inv: "if ?seen = [] then min_diff = None
         else \<exists>b. best_split = int b \<and> min_diff = Some (left_diff items b)
                \<and> first_minimum items (length ?seen) b"
      using fm b by auto
    from Cons.IH [OF items inv] False show ?thesis
      unfolding len cum step by simp
  qed
qed

lemma shannon_fano_split_exact:
  assumes "items \<noteq> []" "sum_list (map (\<lambda>x. \<bar>snd x\<bar>) items) < 2 ^ 53"
  shows "\<exists>b. first_minimum items (length items) b
           \<and> shannon_fano_split items = Inr (max 1 (min (int b) (int (length items) - 1)))"
proof -
  have "\<bar>sum_list (map snd items)\<bar> < 2 ^ 53"
    using assms(2) abs_sum_list_le [of items] by linarith
  then have t: "float_of_int (sum_list (map snd items))
      = Inr (real_of_int (sum_list (map snd items)))"
    by (rule float_of_int_exact)
  from split_loop_first_minimum [of items "[]" items None _, OF _ _ assms]
  obtain b where
    b: "split_loop items (real_of_int (sum_list (map snd items)) / 2) 0 0 1 None = Inr (int b)"
       "first_minimum items (length items) b" by auto
  have "shannon_fano_split items = Inr (max 1 (min (int b) (int (length items) - 1)))"
    by (simp add: shannon_fano_split_def Let_def t b(1))
  with b(2) show ?thesis by blast
qed

text \<open>
  C6 as the code has it. For a list of \<open>n \<ge> 2\<close> items, whatever \<open>shannon_fano_split\<close> returns
  lies in \<open>[1, n - 1]\<close>. Where the absolute weights sum to less than \<open>2 ^ 53\<close>, so that the floats
  \<open>half\<close> and \<open>diff\<close> are exact, it returns the first index \<open>b\<close> among \<open>1, \<dots>, n\<close> at which the
  distance between the weight of the first \<open>b\<close> items and half the total weight is least
  (every earlier index is strictly worse), clamped to \<open>[1, n - 1]\<close>.
\<close>

theorem shannon_fano_split_first_minimum:
  assumes "2 \<le> length items"
  shows "(\<forall>s. shannon_fano_split items = Inr s \<longrightarrow> 1 \<le> s \<and> s \<le> int (length items) - 1)
    \<and> (sum_list (map (\<lambda>x. \<bar>snd x\<bar>) items) < 2 ^ 53 \<longrightarrow>
         (\<exists>b. first_minimum items (length items) b
            \<and> shannon_fano_split items = Inr (max 1 (min (int b) (int (length items) - 1)))))"
proof (rule conjI)
  show "\<forall>s. shannon_fano_split items = Inr s \<longrightarrow> 1 \<le> s \<and> s \<le> int (length items) - 1"
    using assms shannon_fano_split_range by blast
next
  have ne: "items \<noteq> []" using assms by auto
  show "sum_list (map (\<lambda>x. \<bar>snd x\<bar>) items) < 2 ^ 53 \<longrightarrow>
         (\<exists>b. first_minimum items (length items) b
            \<and> shannon_fano_split items = Inr (max 1 (min (int b) (int (length items) - 1))))"
    using ne shannon_fano_split_exact by blast
qed

theorem shannon_fano_split_first_minimum_witness:
  "\<exists>b. first_minimum [(CHR ''a'', 1), (CHR ''b'', 1), (CHR ''c'', 1)] 3 b
       \<and> shannon_fano_split [(CHR ''a'', 1), (CHR ''b'', 1), (CHR ''c'', 1)]
           = Inr (max 1 (min (int b) 2))
       \<and> shannon_fano_split [(CHR ''a'', 1), (CHR ''b'', 1), (CHR ''c'', 1)] = Inr 1"
proof -
  let ?items = "[(CHR ''a'', 1::int), (CHR ''b'', 1), (CHR ''c'', 1)]"
  have h: "2 \<le> length ?items" by simp
  have len: "length ?items = 3" by simp
  have "(3::int) < 2 ^ 53" by simp
  then have w: "sum_list (map (\<lambda>x. \<bar>snd x\<bar>) ?items) < 2 ^ 53" by simp
  from shannon_fano_split_first_minimum [OF h] w obtain b where
    b: "first_minimum ?items (length ?items) b"
       "shannon_fano_split ?items = Inr (max 1 (min (int b) (int (length ?items) - 1)))"
    by blast
  have "first_minimum ?items 3 b" using b(1) unfolding len .
  moreover have "shannon_fano_split ?items = Inr (max 1 (min (int b) 2))"
    using b(2) unfolding len by simp
  moreover have "shannon_fano_split ?items = Inr 1"
    by code_simp
  ultimately show ?thesis by blast
qed

text \<open>
  C6 as stated fails for weights beyond the exact range of a double. With three items of
  weight \<open>2 ^ 52 + 1\<close> the distances at the indices 1 and 2 are equal, so the first minimum is
  1; but \<open>half\<close> is rounded up, the float distance at index 2 comes out smaller than at
  index 1, and the code returns 2.
\<close>

theorem shannon_fano_split_rounding_counterexample:
  "first_minimum [(CHR ''a'', 2 ^ 52 + 1), (CHR ''b'', 2 ^ 52 + 1), (CHR ''c'', 2 ^ 52 + 1)] 3 1
   \<and> shannon_fano_split [(CHR ''a'', 2 ^ 52 + 1), (CHR ''b'', 2 ^ 52 + 1), (CHR ''c'', 2 ^ 52 + 1)]
       = Inr 2"
proof -
  have s: "{Suc 0..3} = {Suc 0, 2, 3}" by auto
  have "first_minimum [(CHR ''a'', 2 ^ 52 + 1), (CHR ''b'', 2 ^ 52 + 1), (CHR ''c'', 2 ^ 52 + 1)] 3 1"
    by (simp add: first_minimum_def left_diff_def s)
  moreover have "shannon_fano_split
      [(CHR ''a'', 2 ^ 52 + 1), (CHR ''b'', 2 ^ 52 + 1), (CHR ''c'', 2 ^ 52 + 1)] = Inr 2"
    by code_simp
  ultimately show ?thesis by blast
qed

subsection \<open>The frequency table and its sorted items\<close>

lemma keys_bump:
  "map fst (bump c counts) = (if c \<in> fst ` set counts then map fst counts else map fst counts @ [c])"
proof (induction counts)
  case Nil
  then show ?case by simp
next
  case (Cons kv counts)
  obtain k v where kv: "kv = (k, v)" by (cases kv)
  show ?case
  proof (cases "k = c")
    case True
    then show ?thesis by (simp add: kv)
  next
    case False
    then show ?thesis using Cons.IH by (simp add: kv)
  qed
qed

lemma analyze_frequencies_snoc:
  "analyze_frequencies (text @ [c]) = bump c (analyze_frequencies text)"
  by (simp add: analyze_frequencies_def)

lemma keys_analyze_frequencies:
  "map fst (analyze_frequencies text) = rev (remdups (rev text))"
proof (induction "text" rule: rev_induct)
  case Nil
  then show ?case by (simp add: analyze_frequencies_def)
next
  case (snoc c cs)
  have "fst ` set (analyze_frequencies cs) = set cs"
    using snoc.IH by (metis list.set_map set_remdups set_rev)
  then show ?case by (simp add: analyze_frequencies_snoc keys_bump snoc.IH)
qed

lemma symbols_analyze_frequencies: "fst ` set (analyze_frequencies text) = set text"
  by (metis keys_analyze_frequencies list.set_map set_remdups set_rev)

lemma bump_weights:
  "\<forall>kv\<in>set counts. 0 \<le> snd kv \<Longrightarrow>
   (\<forall>kv\<in>set (bump c counts). 0 \<le> snd kv)
   \<and> sum_list (map (\<lambda>x. \<bar>snd x\<bar>) (bump c counts)) = sum_list (map (\<lambda>x. \<bar>snd x\<bar>) counts) + 1"
proof (induction counts)
  case Nil
  then show ?case by simp
next
  case (Cons kv counts)
  obtain k v where kv: "kv = (k, v)" by (cases kv)
  from Cons.prems have v: "0 \<le> v" and rest: "\<forall>kv\<in>set counts. 0 \<le> snd kv"
    by (simp_all add: kv)
  show ?case
  proof (cases "k = c")
    case True
    then show ?thesis using v rest by (simp add: kv)
  next
    case False
    then show ?thesis using v Cons.IH [OF rest] by (simp add: kv)
  qed
qed

lemma analyze_frequencies_weights:
  "(\<forall>kv\<in>set (analyze_frequencies text). 0 \<le> snd kv)
   \<and> sum_list (map (\<lambda>x. \<bar>snd x\<bar>) (analyze_frequencies text)) = int (length text)"
proof (induction "text" rule: rev_induct)
  case Nil
  then show ?case by (simp add: analyze_frequencies_def)
next
  case (snoc c cs)
  from snoc.IH have nn: "\<forall>kv\<in>set (analyze_frequencies cs). 0 \<le> snd kv" by blast
  from bump_weights [OF nn, of c] snoc.IH show ?case
    by (simp add: analyze_frequencies_snoc)
qed

lemma sorted_items_weights:
  "sum_list (map (\<lambda>x. \<bar>snd x\<bar>) (sorted_items frequencies))
   = sum_list (map (\<lambda>x. \<bar>snd x\<bar>) frequencies)"
proof -
  have "mset (map (\<lambda>x. \<bar>snd x\<bar>) (sorted_items frequencies))
      = mset (map (\<lambda>x. \<bar>snd x\<bar>) frequencies)"
    by (simp add: sorted_items_def)
  then show ?thesis by (metis sum_mset_sum_list)
qed

lemma sorted_items_descending:
  "sorted_wrt (\<lambda>x y. snd x \<ge> snd y) (sorted_items frequencies)"
proof -
  have "sorted (map (\<lambda>x. - snd x) (sorted_items frequencies))"
    by (simp add: sorted_items_def)
  then show ?thesis by (simp add: sorted_wrt_map)
qed

text \<open>
  C7 as the code has it. The items are sorted by frequency, descending, by a stable sort:
  the result is a permutation of the table, and items of equal frequency keep the order they
  have in the table, which is the order of first occurrence of the symbols in the text.
\<close>

theorem sorted_items_stable:
  "sorted_wrt (\<lambda>x y. snd x \<ge> snd y) (sorted_items frequencies)
   \<and> mset (sorted_items frequencies) = mset frequencies
   \<and> (\<forall>f. filter (\<lambda>x. snd x = f) (sorted_items frequencies) = filter (\<lambda>x. snd x = f) frequencies)
   \<and> map fst (analyze_frequencies text) = rev (remdups (rev text))"
proof (intro conjI allI)
  fix f :: int
  have "filter (\<lambda>x. - snd x = - f) (sort_key (\<lambda>x. - snd x) frequencies)
      = filter (\<lambda>x. - snd x = - f) frequencies"
    by (rule sort_key_stable)
  then show "filter (\<lambda>x. snd x = f) (sorted_items frequencies) = filter (\<lambda>x. snd x = f) frequencies"
    by (simp add: sorted_items_def)
qed (simp_all add: sorted_items_descending keys_analyze_frequencies, simp add: sorted_items_def)

text \<open>
  C7 as stated fails: \<open>"ab"\<close> and \<open>"ba"\<close> have the same symbols with the same frequencies,
  yet the builder gets \<open>a\<close> before \<open>b\<close> for the first and \<open>b\<close> before \<open>a\<close> for the second, so
  the tie is not broken by the symbols and the order is not a function of symbols and
  frequencies alone.
\<close>

theorem sorted_items_order_counterexample:
  "set (analyze_frequencies ''ab'') = set (analyze_frequencies ''ba'')
   \<and> sorted_items (analyze_frequencies ''ab'') = [(CHR ''a'', 1), (CHR ''b'', 1)]
   \<and> sorted_items (analyze_frequencies ''ba'') = [(CHR ''b'', 1), (CHR ''a'', 1)]"
  by (auto simp: analyze_frequencies_def sorted_items_def)

subsection \<open>Decoding\<close>

lemma decode_loop_code:
  "descend node p = Some leaf \<Longrightarrow> char_of leaf = Some c \<Longrightarrow> p \<noteq> [] \<Longrightarrow>
   decode_loop t node (p @ rest) res = decode_loop t t rest (res @ [c])"
proof (induction p arbitrary: node)
  case Nil
  then show ?case by simp
next
  case (Cons b p)
  from Cons.prems(1) obtain node' where
    n: "char_of node = None"
       "(if b = CHR ''0'' then left_of node else right_of node) = Some node'"
       "descend node' p = Some leaf"
    by (auto split: option.splits)
  show ?case
  proof (cases "p = []")
    case True
    with n(3) Cons.prems(2) have "char_of node' = Some c" by simp
    with n(2) True show ?thesis by simp
  next
    case False
    with n(3) have "char_of node' = None" by (cases p) (auto split: option.splits)
    with n(2) Cons.IH [OF n(3) Cons.prems(2) False] show ?thesis by simp
  qed
qed

lemma decode_loop_partial:
  "descend node p = Some m \<Longrightarrow> char_of m = None \<Longrightarrow> decode_loop t node p res = Inr res"
proof (induction p arbitrary: node)
  case Nil
  then show ?case by simp
next
  case (Cons b p)
  from Cons.prems(1) obtain node' where
    n: "(if b = CHR ''0'' then left_of node else right_of node) = Some node'"
       "descend node' p = Some m"
    by (auto split: option.splits)
  have "char_of node' = None"
    using n(2) Cons.prems(2) by (cases p) (auto split: option.splits)
  with n(1) Cons.IH [OF n(2) Cons.prems(2)] show ?case by simp
qed

lemma decode_loop_codes:
  "list_all2 (is_code t) syms codes \<Longrightarrow> descend t tail = Some m \<Longrightarrow> char_of m = None \<Longrightarrow>
   decode_loop t t (concat codes @ tail) res = Inr (res @ syms)"
proof (induction syms codes arbitrary: res rule: list_all2_induct)
  case Nil
  then show ?case by (simp add: decode_loop_partial)
next
  case (Cons c syms p codes)
  from Cons.hyps(1) obtain leaf where
    l: "p \<noteq> []" "descend t p = Some leaf" "char_of leaf = Some c"
    by (auto simp: is_code_def split: option.splits)
  have "decode_loop t t (p @ (concat codes @ tail)) res
      = decode_loop t t (concat codes @ tail) (res @ [c])"
    using l by (intro decode_loop_code) auto
  with Cons.IH [OF Cons.prems] show ?case by simp
qed

lemma decode_bits_codes:
  assumes "list_all2 (is_code t) syms codes" "descend t tail = Some m" "char_of m = None"
  shows "decode_bits (concat codes @ tail @ pad) (Some t) (int (length pad)) = Inr syms"
proof -
  have "(if int (length pad) > 0
         then take (length (concat codes @ tail @ pad) - nat (int (length pad))) (concat codes @ tail @ pad)
         else concat codes @ tail @ pad) = concat codes @ tail"
    by simp
  then show ?thesis
    using decode_loop_codes [OF assms, of "[]"] by (simp add: decode_bits_def)
qed

text \<open>
  C3 as the code has it. When the bits that remain after the last complete code lead from
  the root to an internal node, so that the stream ends in the middle of a traversal (or at
  the root, when there are none), \<open>decode_bits\<close> raises nothing: it returns the symbols decoded
  so far and drops the remaining bits.
\<close>

theorem decode_bits_partial_tail:
  assumes "list_all2 (is_code t) syms codes" "descend t tail = Some m" "char_of m = None"
  shows "decode_bits (concat codes @ tail @ pad) (Some t) (int (length pad)) = Inr syms"
  using assms by (rule decode_bits_codes)

theorem decode_bits_partial_tail_witness:
  "decode_bits (concat [''0'', ''10''] @ ''1'' @ ''000'')
     (Some (Node None 3 (Some (Node (Some CHR ''a'') 2 None None))
        (Some (Node None 1 (Some (Node (Some CHR ''b'') 1 None None))
           (Some (Node (Some CHR ''c'') 1 None None))))))
     (int (length ''000'')) = Inr ''ab''"
proof -
  let ?r = "Node None 1 (Some (Node (Some CHR ''b'') 1 None None))
           (Some (Node (Some CHR ''c'') 1 None None))"
  let ?t = "Node None 3 (Some (Node (Some CHR ''a'') 2 None None)) (Some ?r)"
  have 1: "list_all2 (is_code ?t) ''ab'' [''0'', ''10'']" by (simp add: is_code_def)
  have 2: "descend ?t ''1'' = Some ?r" by simp
  have 3: "char_of ?r = None" by simp
  show ?thesis by (rule decode_bits_partial_tail [OF 1 2 3])
qed

text \<open>
  C3 as stated fails. \<open>"abracadabra"\<close> compresses with Shannon-Fano to three bytes with one
  padding bit. Without the last byte, the fifteen bits left are the codes of \<open>"abraca"\<close>
  followed by \<open>111\<close>, which stops at an internal node; the decompressor returns \<open>"abraca"\<close>
  and no error.
\<close>

theorem decode_truncated_counterexample:
  "\<exists>data t padding code_table m.
     shannon_fano_compress 1000 ''abracadabra'' = Inr (data, Some t, padding, code_table)
     \<and> length data = 3 \<and> padding = 1
     \<and> take 15 (bytes_to_bits (butlast data)) = ''0'' @ ''10'' @ ''110'' @ ''0'' @ ''1110'' @ ''0'' @ ''111''
     \<and> descend t ''111'' = Some m \<and> char_of m = None
     \<and> shannon_fano_decompress (butlast data) (Some t) padding = Inr ''abraca''"
proof -
  let ?cd = "Node None 2 (Some (Node (Some CHR ''c'') 1 None None))
                   (Some (Node (Some CHR ''d'') 1 None None))"
  let ?t = "Node None 11 (Some (Node (Some CHR ''a'') 5 None None))
       (Some
         (Node None 6 (Some (Node (Some CHR ''b'') 2 None None))
           (Some
             (Node None 4 (Some (Node (Some CHR ''r'') 2 None None))
               (Some ?cd)))))"
  have t: "build_shannon_tree 1000 (sorted_items (analyze_frequencies ''abracadabra'')) = Inr ?t"
    by code_simp
  have e: "encode_text ''abracadabra'' (generate_codes ?t []) = Inr ([89, 207, 88], 1)"
    by code_simp
  have c: "shannon_fano_compress 1000 ''abracadabra''
        = Inr ([89, 207, 88], Some ?t, 1, generate_codes ?t [])"
    by (simp only: shannon_fano_compress_def Let_def t e sum.case prod.case)
  have b: "take 15 (bytes_to_bits (butlast [89, 207, 88]))
       = ''0'' @ ''10'' @ ''110'' @ ''0'' @ ''1110'' @ ''0'' @ ''111''"
    by code_simp
  have m: "descend ?t ''111'' = Some ?cd" "char_of ?cd = None" by simp_all
  have d: "shannon_fano_decompress (butlast [89, 207, 88]) (Some ?t) 1 = Inr ''abraca''"
    by code_simp
  have l: "length [89 :: 8 word, 207, 88] = 3" by simp
  from c l b m d show ?thesis by blast
qed

subsection \<open>Encoding with a generated table\<close>

lemma dom_generate_codes: "dom (generate_codes t pre) = symbols t"
proof (induction t arbitrary: pre)
  case (Node ch f l r)
  show ?case
  proof (cases ch)
    case (Some c)
    then show ?thesis by (auto split: if_splits)
  next
    case None
    let ?L = "case l of None \<Rightarrow> Map.empty | Some lt \<Rightarrow> generate_codes lt (pre @ ''0'')"
    let ?R = "case r of None \<Rightarrow> Map.empty | Some rt \<Rightarrow> generate_codes rt (pre @ ''1'')"
    have L: "dom ?L = (case l of None \<Rightarrow> {} | Some lt \<Rightarrow> symbols lt)"
      using Node.IH(1) by (cases l) auto
    have R: "dom ?R = (case r of None \<Rightarrow> {} | Some rt \<Rightarrow> symbols rt)"
      using Node.IH(2) by (cases r) auto
    have "dom (generate_codes (Node ch f l r) pre) = dom (?L ++ ?R)"
      using None by simp
    also have "\<dots> = dom ?R \<union> dom ?L" by (rule dom_map_add)
    also have "\<dots> = dom ?L \<union> dom ?R" by (rule Un_commute)
    also have "\<dots> = symbols (Node ch f l r)"
      unfolding L R using None by simp
    finally show ?thesis .
  qed
qed

lemma generate_codes_bitstring:
  assumes "generate_codes t [] a = Some x"
  shows "bitstring x"
proof -
  from generate_codes_path [OF assms]
  have "x = ''0'' \<or> (\<exists>p. x = p \<and> bitstring p)" by auto
  then show ?thesis by (auto simp: bitstring_def)
qed

lemma generate_codes_is_code:
  assumes "char_of t = None" "generate_codes t [] a = Some x"
  shows "is_code t a x"
proof -
  from generate_codes_path [OF assms(2)] assms(1)
  obtain p n where "x = [] @ p" "p \<noteq> []" "descend t p = Some n" "char_of n = Some a"
    by auto
  then show ?thesis by (simp add: is_code_def)
qed

lemma generate_codes_covers:
  assumes "set text \<subseteq> symbols t"
  shows "\<forall>c\<in>set text. \<exists>code. generate_codes t [] c = Some code \<and> bitstring code"
proof
  fix c assume "c \<in> set text"
  with assms have "c \<in> symbols t" by (rule subsetD)
  then have "c \<in> dom (generate_codes t [])" by (simp only: dom_generate_codes)
  then have "\<exists>code. generate_codes t [] c = Some code" by (rule domD)
  then obtain code where c: "generate_codes t [] c = Some code" ..
  have "bitstring code" using c by (rule generate_codes_bitstring)
  with c show "\<exists>code. generate_codes t [] c = Some code \<and> bitstring code"
    by (intro exI [of _ code] conjI)
qed

lemma join_codes_concat:
  "\<forall>c\<in>set text. code_table c \<noteq> None \<Longrightarrow>
   join_codes text code_table = Inr (concat (map (\<lambda>c. the (code_table c)) text))"
  by (induction "text") auto

lemma encode_text_bits:
  assumes "\<forall>c\<in>set text. \<exists>code. code_table c = Some code \<and> bitstring code"
  shows "\<exists>data padding. encode_text text code_table = Inr (data, padding) \<and> 0 \<le> padding
           \<and> bytes_to_bits data
               = concat (map (\<lambda>c. the (code_table c)) text) @ replicate (nat padding) CHR ''0''"
proof -
  let ?bits = "concat (map (\<lambda>c. the (code_table c)) text)"
  have j: "join_codes text code_table = Inr ?bits"
    using assms by (intro join_codes_concat) auto
  from join_codes_ok [OF assms] j have bs: "bitstring ?bits" by auto
  define padding where "padding = (8 - int (length ?bits) mod 8) mod 8"
  define bits' where "bits' = ?bits @ replicate (nat padding) CHR ''0''"
  have p0: "0 \<le> padding" unfolding padding_def using padding_range by blast
  have "bitstring bits'" using bs by (simp add: bits'_def)
  moreover have "length bits' = length ?bits + nat padding" by (simp add: bits'_def)
  then have "8 dvd length bits'" unfolding padding_def by (simp only: padded_dvd)
  ultimately obtain data where d: "to_bytes bits' = Inr data" "bytes_to_bits data = bits'"
    using to_bytes_ok by blast
  have "encode_text text code_table = Inr (data, padding)"
    using j d(1) by (simp add: encode_text_def padding_def bits'_def Let_def)
  with d(2) p0 show ?thesis unfolding bits'_def by blast
qed

lemma length_analyze_frequencies: "length (analyze_frequencies text) = card (set text)"
proof -
  have "length (analyze_frequencies text) = length (map fst (analyze_frequencies text))"
    by simp
  also have "\<dots> = length (remdups (rev text))"
    by (simp only: keys_analyze_frequencies length_rev)
  also have "\<dots> = card (set (rev text))" by (rule length_remdups_card_conv)
  finally show ?thesis by simp
qed

lemma huffman_tree_of_text:
  assumes "text \<noteq> []"
  shows "\<exists>t. build_huffman_tree ident (analyze_frequencies text) = Some t \<and> symbols t = set text
           \<and> (2 \<le> card (set text) \<longrightarrow> char_of t = None)"
proof -
  have "set text \<noteq> {}" using assms by simp
  then have "fst ` set (analyze_frequencies text) \<noteq> {}"
    by (simp add: symbols_analyze_frequencies)
  then have ne: "analyze_frequencies text \<noteq> []" by auto
  from build_huffman_tree_total [OF ne, of ident] obtain t where
    t: "build_huffman_tree ident (analyze_frequencies text) = Some t"
       "symbols t = fst ` set (analyze_frequencies text)"
       "2 \<le> length (analyze_frequencies text) \<longrightarrow> char_of t = None" by blast
  from t(2) have "symbols t = set text" by (simp only: symbols_analyze_frequencies)
  moreover from t(3) have "2 \<le> card (set text) \<longrightarrow> char_of t = None"
    by (simp only: length_analyze_frequencies)
  ultimately show ?thesis using t(1) by blast
qed

subsection \<open>Object identities in Huffman construction\<close>

lemma same_order_le:
  fixes ident1 ident2 :: "'a obj \<Rightarrow> nat"
  assumes "\<forall>x y. ident1 x < ident1 y \<longleftrightarrow> ident2 x < ident2 y"
  shows "ident1 x \<le> ident1 y \<longleftrightarrow> ident2 x \<le> ident2 y"
proof -
  have "\<not> ident1 y < ident1 x \<longleftrightarrow> \<not> ident2 y < ident2 x" using assms by blast
  then show ?thesis by linarith
qed

lemma same_item_key:
  assumes "\<forall>x y. ident1 x < ident1 y \<longleftrightarrow> ident2 x < ident2 y"
    and "same_item ident1 ident2 a1 a2" "same_item ident1 ident2 b1 b2"
  shows "item_key a1 \<le> item_key b1 \<longleftrightarrow> item_key a2 \<le> item_key b2"
proof -
  from assms(2) obtain x where
    a: "fst a1 = fst a2" "fst (snd a1) = ident1 x" "fst (snd a2) = ident2 x"
    by (auto simp: same_item_def)
  from assms(3) obtain y where
    b: "fst b1 = fst b2" "fst (snd b1) = ident1 y" "fst (snd b2) = ident2 y"
    by (auto simp: same_item_def)
  have "item_key a1 \<le> item_key b1
      \<longleftrightarrow> fst a1 < fst b1 \<or> (fst a1 = fst b1 \<and> ident1 x \<le> ident1 y)"
    by (auto simp: item_key_def a b less_eq_prod_def)
  also have "\<dots> \<longleftrightarrow> fst a2 < fst b2 \<or> (fst a2 = fst b2 \<and> ident2 x \<le> ident2 y)"
    using same_order_le [OF assms(1), of x y] by (simp add: a b)
  also have "\<dots> \<longleftrightarrow> item_key a2 \<le> item_key b2"
    by (auto simp: item_key_def a b less_eq_prod_def)
  finally show ?thesis .
qed

lemma same_item_heappush:
  assumes "\<forall>x y. ident1 x < ident1 y \<longleftrightarrow> ident2 x < ident2 y"
  shows "list_all2 (same_item ident1 ident2) heap1 heap2 \<Longrightarrow> same_item ident1 ident2 a1 a2 \<Longrightarrow>
         list_all2 (same_item ident1 ident2) (heappush heap1 a1) (heappush heap2 a2)"
proof (induction heap1 heap2 rule: list_all2_induct)
  case Nil
  then show ?case by (simp add: heappush_def)
next
  case (Cons b1 heap1 b2 heap2)
  have "item_key a1 \<le> item_key b1 \<longleftrightarrow> item_key a2 \<le> item_key b2"
    using assms Cons.prems Cons.hyps(1) by (rule same_item_key)
  then show ?case
    using Cons.IH [OF Cons.prems] Cons.hyps(1,2) Cons.prems
    by (simp add: heappush_def)
qed

lemma same_item_leaf_heap:
  assumes "\<forall>x y. ident1 x < ident1 y \<longleftrightarrow> ident2 x < ident2 y"
  shows "list_all2 (same_item ident1 ident2) acc1 acc2 \<Longrightarrow>
     list_all2 (same_item ident1 ident2)
       (foldl (\<lambda>heap (c, freq). heappush heap (freq, ident1 (Char c), Node (Some c) freq None None))
          acc1 frequencies)
       (foldl (\<lambda>heap (c, freq). heappush heap (freq, ident2 (Char c), Node (Some c) freq None None))
          acc2 frequencies)"
proof (induction frequencies arbitrary: acc1 acc2)
  case Nil
  then show ?case by simp
next
  case (Cons cf frequencies)
  obtain c f where cf: "cf = (c, f)" by (cases cf)
  have "same_item ident1 ident2 (f, ident1 (Char c), Node (Some c) f None None)
          (f, ident2 (Char c), Node (Some c) f None None)"
    by (auto simp: same_item_def)
  with Cons.prems have "list_all2 (same_item ident1 ident2)
      (heappush acc1 (f, ident1 (Char c), Node (Some c) f None None))
      (heappush acc2 (f, ident2 (Char c), Node (Some c) f None None))"
    by (rule same_item_heappush [OF assms])
  from Cons.IH [OF this] show ?case by (simp add: cf)
qed

lemma same_item_huffman_loop:
  assumes "\<forall>x y. ident1 x < ident1 y \<longleftrightarrow> ident2 x < ident2 y"
  shows "list_all2 (same_item ident1 ident2) heap1 heap2 \<Longrightarrow>
         list_all2 (same_item ident1 ident2) (huffman_loop ident1 n heap1) (huffman_loop ident2 n heap2)"
proof (induction n heap1 arbitrary: heap2 rule: huffman_loop_induct [where ident = ident1])
  case (short n heap1)
  then have "length heap2 \<le> 1" by (auto dest: list_all2_lengthD)
  with short show ?case by (simp add: huffman_loop_short)
next
  case (step n a1 b1 heap1)
  from step.prems obtain a2 b2 heap2' where
    h2: "heap2 = a2 # b2 # heap2'" and
    ab: "same_item ident1 ident2 a1 a2" "same_item ident1 ident2 b1 b2" and
    r: "list_all2 (same_item ident1 ident2) heap1 heap2'"
    by (auto simp: list_all2_Cons1)
  have m: "same_item ident1 ident2
      (fst a1 + fst b1, ident1 (Merged n),
        Node None (fst a1 + fst b1) (Some (snd (snd a1))) (Some (snd (snd b1))))
      (fst a2 + fst b2, ident2 (Merged n),
        Node None (fst a2 + fst b2) (Some (snd (snd a2))) (Some (snd (snd b2))))"
    using ab by (auto simp: same_item_def)
  from r m have "list_all2 (same_item ident1 ident2)
      (heappush heap1 (fst a1 + fst b1, ident1 (Merged n),
        Node None (fst a1 + fst b1) (Some (snd (snd a1))) (Some (snd (snd b1)))))
      (heappush heap2' (fst a2 + fst b2, ident2 (Merged n),
        Node None (fst a2 + fst b2) (Some (snd (snd a2))) (Some (snd (snd b2)))))"
    by (rule same_item_heappush [OF assms])
  from step.IH [OF this] show ?case unfolding h2 huffman_loop_step .
qed

lemma build_huffman_tree_same_order:
  assumes "\<forall>x y. ident1 x < ident1 y \<longleftrightarrow> ident2 x < ident2 y"
  shows "build_huffman_tree ident1 frequencies = build_huffman_tree ident2 frequencies"
proof -
  have "list_all2 (same_item ident1 ident2) (leaf_heap ident1 frequencies) (leaf_heap ident2 frequencies)"
    unfolding leaf_heap_def by (rule same_item_leaf_heap [OF assms]) simp
  then have "list_all2 (same_item ident1 ident2)
      (huffman_loop ident1 0 (leaf_heap ident1 frequencies))
      (huffman_loop ident2 0 (leaf_heap ident2 frequencies))"
    by (rule same_item_huffman_loop [OF assms])
  then show ?thesis
    unfolding build_huffman_tree_def
    by (cases "huffman_loop ident1 0 (leaf_heap ident1 frequencies)";
        cases "huffman_loop ident2 0 (leaf_heap ident2 frequencies)")
       (simp_all add: same_item_def)
qed


text \<open>
  C9 as the code has it. Heap items are ordered by weight and then by object identity, so
  Huffman construction is a function of the frequency table and of the order of the
  identities: two runs whose identities compare the same way build the same tree.
\<close>

theorem build_huffman_tree_identity_order:
  assumes "\<forall>x y. ident1 x < ident1 y \<longleftrightarrow> ident2 x < ident2 y"
  shows "build_huffman_tree ident1 frequencies = build_huffman_tree ident2 frequencies"
  using assms by (rule build_huffman_tree_same_order)

theorem build_huffman_tree_identity_order_witness:
  "build_huffman_tree ident_up [(CHR ''a'', 1), (CHR ''b'', 1), (CHR ''c'', 2)]
   = build_huffman_tree (\<lambda>x. 3 * ident_up x + 7) [(CHR ''a'', 1), (CHR ''b'', 1), (CHR ''c'', 2)]"
proof -
  have h: "\<forall>x y. ident_up x < ident_up y \<longleftrightarrow> 3 * ident_up x + 7 < 3 * ident_up y + 7"
    by simp
  show ?thesis by (rule build_huffman_tree_identity_order [OF h])
qed

text \<open>
  C9 as stated fails: on the table \<open>{a: 1, b: 1}\<close> a run in which \<open>id('a') < id('b')\<close> puts \<open>a\<close>
  on the left, and a run in which \<open>id('b') < id('a')\<close> puts \<open>b\<close> on the left. The tie is broken
  by object identity; the code has no creation-sequence number.
\<close>

theorem build_huffman_tree_identity_counterexample:
  "build_huffman_tree ident_up [(CHR ''a'', 1), (CHR ''b'', 1)]
     = Some (Node None 2 (Some (Node (Some CHR ''a'') 1 None None))
               (Some (Node (Some CHR ''b'') 1 None None)))
   \<and> build_huffman_tree ident_down [(CHR ''a'', 1), (CHR ''b'', 1)]
     = Some (Node None 2 (Some (Node (Some CHR ''b'') 1 None None))
               (Some (Node (Some CHR ''a'') 1 None None)))"
  by code_simp

subsection \<open>The "arithmetic coding" path\<close>






subsection \<open>The round trip on texts with two symbols or more\<close>

text \<open>
  Where the text has at least two distinct symbols the root of the tree is internal, every
  code is a path to a leaf, and decompressing the compressed text gives the text back, with
  both algorithms (for Shannon-Fano, given a recursion limit of at least the number of
  distinct symbols and a text short enough for its length to convert to a float).
\<close>

lemma roundtrip_core:
  assumes "symbols t = set text" "char_of t = None"
  shows "\<exists>data padding. encode_text text (generate_codes t []) = Inr (data, padding)
           \<and> decode_bits (bytes_to_bits data) (Some t) padding = Inr text"
proof -
  let ?ct = "generate_codes t []"
  let ?codes = "map (\<lambda>c. the (?ct c)) text"
  have cov: "\<forall>c\<in>set text. \<exists>code. ?ct c = Some code \<and> bitstring code"
    using assms(1) by (intro generate_codes_covers) simp
  from encode_text_bits [OF cov] obtain data padding where
    e: "encode_text text ?ct = Inr (data, padding)" and p: "0 \<le> padding" and
    b: "bytes_to_bits data = concat ?codes @ replicate (nat padding) CHR ''0''"
    by blast
  have "\<forall>c\<in>set text. is_code t c (the (?ct c))"
  proof
    fix c assume "c \<in> set text"
    with cov obtain code where c: "?ct c = Some code" by blast
    from generate_codes_is_code [OF assms(2) c] c show "is_code t c (the (?ct c))" by simp
  qed
  then have codes: "list_all2 (is_code t) text ?codes"
    by (simp add: list_all2_map2 list_all2_same)
  have d: "descend t [] = Some t" by simp
  have "decode_bits (concat ?codes @ [] @ replicate (nat padding) CHR ''0'') (Some t)
          (int (length (replicate (nat padding) CHR ''0''))) = Inr text"
    using codes d assms(2) by (rule decode_bits_codes)
  then have "decode_bits (bytes_to_bits data) (Some t) padding = Inr text"
    using p by (simp add: b)
  with e show ?thesis by (intro exI [of _ data] exI [of _ padding] conjI)
qed

lemma huffman_roundtrip_ok:
  assumes "2 \<le> card (set text)"
  shows "huffman_roundtrip ident text = Inr text"
proof -
  from assms have ne: "text \<noteq> []" by auto
  from huffman_tree_of_text [OF ne, of ident] assms obtain t where
    t: "build_huffman_tree ident (analyze_frequencies text) = Some t" "symbols t = set text"
       "char_of t = None" by blast
  from roundtrip_core [OF t(2,3)] obtain data padding where
    e: "encode_text text (generate_codes t []) = Inr (data, padding)" and
    d: "decode_bits (bytes_to_bits data) (Some t) padding = Inr text" by blast
  have "huffman_compress ident text = Inr (data, Some t, padding, generate_codes t [])"
    by (simp only: huffman_compress_def Let_def t(1) e option.case sum.case prod.case)
  then show ?thesis
    by (simp only: huffman_roundtrip_def huffman_decompress_def d sum.case prod.case)
qed

lemma shannon_fano_roundtrip_ok:
  assumes "2 \<le> card (set text)" "card (set text) \<le> limit" "int (length text) < 2 ^ 1023"
  shows "shannon_fano_roundtrip limit text = Inr text"
proof -
  let ?items = "sorted_items (analyze_frequencies text)"
  have s: "set ?items = set (analyze_frequencies text)" by (simp add: sorted_items_def)
  have l: "length ?items = card (set text)"
    by (simp add: sorted_items_def length_analyze_frequencies)
  have ne: "?items \<noteq> []" using l assms(1) by auto
  have le: "length ?items \<le> limit" using l assms(2) by simp
  have w: "sum_list (map (\<lambda>x. \<bar>snd x\<bar>) ?items) < 2 ^ 1023"
    using assms(3) analyze_frequencies_weights [of "text"] by (simp only: sorted_items_weights)
  from build_shannon_tree_total [OF ne le w] obtain t where
    t: "build_shannon_tree limit ?items = Inr t" "symbols t = fst ` set ?items" by blast
  have sy: "symbols t = set text"
    unfolding t(2) s by (rule symbols_analyze_frequencies)
  have ch: "char_of t = None"
    using build_shannon_tree_sound [OF t(1)] l assms(1) by simp
  from roundtrip_core [OF sy ch] obtain data padding where
    e: "encode_text text (generate_codes t []) = Inr (data, padding)" and
    d: "decode_bits (bytes_to_bits data) (Some t) padding = Inr text" by blast
  have "shannon_fano_compress limit text = Inr (data, Some t, padding, generate_codes t [])"
    by (simp only: shannon_fano_compress_def Let_def t(1) e sum.case prod.case)
  then show ?thesis
    by (simp only: shannon_fano_roundtrip_def shannon_fano_decompress_def d sum.case prod.case)
qed

end
